theory Spec2Isabelle
  imports Main
begin

section \<open>Data model of \<open>sharedProcessWorkerService.ts\<close>\<close>

text \<open>
  The service is asynchronous TypeScript running on one event loop. The embedding makes
  the heap objects (web workers, \<open>createWorker\<close> invocations with their captured local
  variables, \<open>send\<close> invocations, message ports), the two registries and the microtask
  queue explicit. Objects are named by their index in the list that holds them. Every
  \<open>await\<close> splits a function body into the part that runs synchronously and a
  continuation; a continuation is queued when the promise it awaits is resolved (at once
  if it is resolved already) and the queue is served first-in first-out. Calls of the two
  public methods and events of a \<open>Worker\<close> may come between any two continuations.
  The imported function \<open>hash\<close> is a parameter \<open>hsh\<close> of the operations that use it, and
  the value of \<open>generateUuid()\<close> is a parameter of the step that calls it.
\<close>

text \<open>Modelled from the spec: the declaration of \<open>ISharedProcessWorkerConfiguration\<close> is
  imported. A configuration names the process (what kind of worker hosts it and a module
  id) and the reply target; the record has the fields the service reads,
  \<open>configuration.process.moduleId\<close>, \<open>configuration.process.type\<close> and
  \<open>configuration.reply.windowId\<close>.\<close>

record configuration =
  process_moduleId :: string
  process_type :: string
  reply_windowId :: int

text \<open>Modelled from the spec: the enum \<open>SharedProcessWorkerMessages\<close> is imported. Its
  values are the two kinds sent to the worker and the six kinds received from it, under the
  names the service uses; \<open>OtherMessage\<close> stands for any other \<open>id\<close> an inbound message may
  carry.\<close>

datatype message_id =
    WorkerSpawn | WorkerTerminate
  | WorkerReady | WorkerAck | WorkerTrace | WorkerInfo | WorkerWarn | WorkerError
  | OtherMessage string

text \<open>\<open>ISharedProcessToWorkerMessage\<close>: \<open>environment\<close> holds the bootstrap path of a spawn
  message, \<open>nonce\<close> is filled in by \<open>send\<close>.\<close>

record to_worker_message =
  m_id :: message_id
  m_configuration :: configuration
  m_environment :: "string option"
  m_nonce :: "string option"

text \<open>\<open>IWorkerToSharedProcessMessage\<close>: \<open>message\<close> and \<open>nonce\<close> are optional.\<close>

record from_worker_message =
  r_id :: message_id
  r_message :: "string option"
  r_nonce :: "string option"

text \<open>A cancellation token is either the token of the \<open>CancellationTokenSource\<close> created by
  one \<open>createWorker\<close> invocation or \<open>CancellationToken.None\<close>.\<close>

datatype token = CtsToken nat | TokenNone

text \<open>Suspended code. \<open>CreateAfterWorker c w\<close>: invocation \<open>c\<close> of \<open>createWorker\<close> resumes
  after line 59 with the web worker \<open>w\<close>; \<open>CreateAfterSpawn c\<close>: it resumes after line 73;
  \<open>SendAfterReady i\<close>: invocation \<open>i\<close> of \<open>send\<close> resumes after line 206;
  \<open>InitAfterReady w\<close>: \<open>init\<close> of web worker \<open>w\<close> resumes after line 129.\<close>

datatype continuation =
    CreateAfterWorker nat nat
  | CreateAfterSpawn nat
  | SendAfterReady nat
  | InitAfterReady nat

text \<open>Who waits for \<open>workerReady\<close> of a web worker: its own \<open>init\<close>, or a \<open>send\<close>.\<close>

datatype ready_waiter = InitWaits | SendWaits nat

datatype severity = LogTrace | LogInfo | LogWarn | LogError

text \<open>The log statements of the file, with the values they interpolate.\<close>

datatype log_text =
    CreateWorkerLog configuration
  | SendingPortLog configuration
  | CreatingWebWorkerLog string
  | DisposeWorkerLog configuration
  | WorkerErrorLog string string
  | WorkerMessageErrorLog string
  | FromWorkerLog string "string option"
  | TakeAsIsLog string
  | UnexpectedMessageLog string from_worker_message

text \<open>Effects that leave the service, in the order they happen. \<open>EvPost i w m p\<close>: the
  \<open>send\<close> invocation \<open>i\<close> posts \<open>m\<close> to the \<open>Worker\<close> of web worker \<open>w\<close>, transferring port
  \<open>p\<close> if given. \<open>EvRelay\<close> is the \<open>ipcRenderer.postMessage\<close> of line 83.\<close>

datatype event =
    EvLog severity log_text
  | EvNewWorker nat string
  | EvLoad nat
  | EvPost nat nat to_worker_message "nat option"
  | EvRelay configuration "nat option"

text \<open>An instance of \<open>SharedProcessWebWorker\<close>. The promise \<open>workerReady\<close> and the promise
  returned by \<open>init\<close> are each a flag (resolved or not) and the list of those awaiting it.
  A resolver stored in \<open>mapMessageNonceToMessageResolve\<close> is the \<open>resolve\<close> function of the
  promise of one \<open>send\<close> invocation, named by that invocation.\<close>

record web_worker =
  wtype :: string
  workerReady :: bool
  readyWaiters :: "ready_waiter list"
  initResolved :: bool
  initWaiters :: "nat list"
  mapMessageNonceToMessageResolve :: "string \<rightharpoonup> nat"

text \<open>The local variables of one \<open>createWorker\<close> invocation, which its dispose closure
  captures: \<open>cts\<close> (its cancelled flag), \<open>worker\<close>, \<open>windowPort\<close>, \<open>workerPort\<close>; and whether
  the invocation has returned.\<close>

record create_call =
  cc_configuration :: configuration
  cts_cancelled :: bool
  worker :: "nat option"
  windowPort :: "nat option"
  workerPort :: "nat option"
  returned :: bool

text \<open>One \<open>send\<close> invocation: \<open>this\<close>, its three arguments, and the promise it returns.\<close>

record send_call =
  target :: nat
  message :: to_worker_message
  token :: token
  port :: "nat option"
  sendResolved :: bool
  sendWaiters :: "nat list"

text \<open>The service. \<open>workers\<close> maps a module id to the web worker whose \<open>init\<close> promise is
  stored for it; \<open>processes\<close> maps a configuration hash to the \<open>createWorker\<close> invocation
  whose dispose closure is stored for it. \<open>ports\<close> holds for every message port whether it
  has been closed.\<close>

record state =
  workers :: "string \<rightharpoonup> nat"
  processes :: "int \<rightharpoonup> nat"
  webworkers :: "web_worker list"
  calls :: "create_call list"
  sends :: "send_call list"
  ports :: "bool list"
  queue :: "continuation list"
  trace :: "event list"

definition init_state :: state where
  "init_state = \<lparr>workers = Map.empty, processes = Map.empty, webworkers = [], calls = [],
     sends = [], ports = [], queue = [], trace = []\<rparr>"

section \<open>Helpers: logging, object update, promises\<close>

definition emit :: "event \<Rightarrow> state \<Rightarrow> state" where
  "emit e s = s\<lparr>trace := trace s @ [e]\<rparr>"

definition upd_worker :: "nat \<Rightarrow> (web_worker \<Rightarrow> web_worker) \<Rightarrow> state \<Rightarrow> state" where
  "upd_worker w f s = s\<lparr>webworkers := (webworkers s)[w := f (webworkers s ! w)]\<rparr>"

definition upd_call :: "nat \<Rightarrow> (create_call \<Rightarrow> create_call) \<Rightarrow> state \<Rightarrow> state" where
  "upd_call c f s = s\<lparr>calls := (calls s)[c := f (calls s ! c)]\<rparr>"

definition upd_send :: "nat \<Rightarrow> (send_call \<Rightarrow> send_call) \<Rightarrow> state \<Rightarrow> state" where
  "upd_send i f s = s\<lparr>sends := (sends s)[i := f (sends s ! i)]\<rparr>"

definition enqueue :: "continuation list \<Rightarrow> state \<Rightarrow> state" where
  "enqueue ks s = s\<lparr>queue := queue s @ ks\<rparr>"

fun ready_cont :: "nat \<Rightarrow> ready_waiter \<Rightarrow> continuation" where
  "ready_cont w InitWaits = InitAfterReady w"
| "ready_cont w (SendWaits i) = SendAfterReady i"

text \<open>\<open>await this.workerReady\<close>: the continuation is queued if the promise is resolved and
  waits on it otherwise.\<close>

definition await_workerReady :: "nat \<Rightarrow> ready_waiter \<Rightarrow> state \<Rightarrow> state" where
  "await_workerReady w k s =
     (if workerReady (webworkers s ! w) then enqueue [ready_cont w k] s
      else upd_worker w (\<lambda>x. x\<lparr>readyWaiters := readyWaiters x @ [k]\<rparr>) s)"

text \<open>\<open>readyResolve(worker)\<close>: resolving a resolved promise does nothing.\<close>

definition readyResolve :: "nat \<Rightarrow> state \<Rightarrow> state" where
  "readyResolve w s =
     (if workerReady (webworkers s ! w) then s
      else enqueue (map (ready_cont w) (readyWaiters (webworkers s ! w)))
             (upd_worker w (\<lambda>x. x\<lparr>workerReady := True, readyWaiters := []\<rparr>) s))"

text \<open>Awaiting and resolving the promise that \<open>init\<close> returned.\<close>

definition await_init :: "nat \<Rightarrow> nat \<Rightarrow> state \<Rightarrow> state" where
  "await_init w c s =
     (if initResolved (webworkers s ! w) then enqueue [CreateAfterWorker c w] s
      else upd_worker w (\<lambda>x. x\<lparr>initWaiters := initWaiters x @ [c]\<rparr>) s)"

definition resolve_init :: "nat \<Rightarrow> state \<Rightarrow> state" where
  "resolve_init w s =
     (if initResolved (webworkers s ! w) then s
      else enqueue (map (\<lambda>c. CreateAfterWorker c w) (initWaiters (webworkers s ! w)))
             (upd_worker w (\<lambda>x. x\<lparr>initResolved := True, initWaiters := []\<rparr>) s))"

text \<open>Awaiting and resolving the promise that \<open>send\<close> returned. When \<open>send\<close> returns the
  inner promise, the promise of the \<open>async\<close> function adopts it over further microtask
  turns; these turns are not counted, the awaiting code is queued when the resolver is
  called.\<close>

definition await_send :: "nat \<Rightarrow> nat \<Rightarrow> state \<Rightarrow> state" where
  "await_send i c s =
     (if sendResolved (sends s ! i) then enqueue [CreateAfterSpawn c] s
      else upd_send i (\<lambda>x. x\<lparr>sendWaiters := sendWaiters x @ [c]\<rparr>) s)"

definition resolve_send :: "nat \<Rightarrow> state \<Rightarrow> state" where
  "resolve_send i s =
     (if sendResolved (sends s ! i) then s
      else enqueue (map CreateAfterSpawn (sendWaiters (sends s ! i)))
             (upd_send i (\<lambda>x. x\<lparr>sendResolved := True, sendWaiters := []\<rparr>) s))"

text \<open>Modelled from the spec: \<open>CancellationTokenSource\<close> and \<open>CancellationToken\<close> are
  imported. A source is a flag that is set when it is triggered and never reset;
  \<open>cts.dispose(true)\<close> triggers it. \<open>token.isCancellationRequested\<close> reads the flag of the
  token's source, and \<open>CancellationToken.None\<close> is never cancelled.\<close>

definition isCancellationRequested :: "state \<Rightarrow> token \<Rightarrow> bool" where
  "isCancellationRequested s t =
     (case t of TokenNone \<Rightarrow> False
      | CtsToken c \<Rightarrow> c < length (calls s) \<and> cts_cancelled (calls s ! c))"

text \<open>JavaScript truthiness of an optional string: \<open>undefined\<close> and \<open>''\<close> are falsy.\<close>

definition truthy :: "string option \<Rightarrow> bool" where
  "truthy x = (case x of None \<Rightarrow> False | Some v \<Rightarrow> v \<noteq> [])"

section \<open>\<open>SharedProcessWebWorker\<close>\<close>

text \<open>\<open>send\<close>, lines 205-206: a new invocation, suspended at \<open>await this.workerReady\<close>.
  The result is the invocation, which stands for the promise it returns.\<close>

definition send :: "nat \<Rightarrow> to_worker_message \<Rightarrow> token \<Rightarrow> nat option \<Rightarrow> state \<Rightarrow> nat \<times> state" where
  "send w m t p s =
     (let i = length (sends s);
          s1 = s\<lparr>sends := sends s @ [\<lparr>target = w, message = m, token = t, port = p,
                    sendResolved = False, sendWaiters = []\<rparr>]\<rparr>
      in (i, await_workerReady w (SendWaits i) s1))"

text \<open>\<open>send\<close>, lines 208-226, with the value \<open>uuid\<close> that \<open>generateUuid()\<close> returns. On a
  cancelled token the function returns, which resolves its promise. Otherwise the resolver is
  stored under the nonce and the message is posted; the promise stays pending.\<close>

definition send_continue :: "nat \<Rightarrow> string \<Rightarrow> state \<Rightarrow> state" where
  "send_continue i uuid s =
     (let x = sends s ! i in
      if isCancellationRequested s (token x) then resolve_send i s
      else emit (EvPost i (target x) ((message x)\<lparr>m_nonce := Some uuid\<rparr>) (port x))
             (upd_worker (target x)
                (\<lambda>y. y\<lparr>mapMessageNonceToMessageResolve :=
                          (mapMessageNonceToMessageResolve y)(uuid \<mapsto> i)\<rparr>) s))"

text \<open>Modelled from the spec: \<open>FileAccess\<close> is imported. The environment of a spawn message
  is the resolved bootstrap path, kept here as the name of the module that is resolved.\<close>

definition bootstrapPath :: string where
  "bootstrapPath = ''bootstrap-fork''"

definition spawn :: "nat \<Rightarrow> configuration \<Rightarrow> nat \<Rightarrow> token \<Rightarrow> state \<Rightarrow> nat \<times> state" where
  "spawn w cfg p t s =
     send w \<lparr>m_id = WorkerSpawn, m_configuration = cfg, m_environment = Some bootstrapPath,
             m_nonce = None\<rparr> t (Some p) s"

definition terminate :: "nat \<Rightarrow> configuration \<Rightarrow> token \<Rightarrow> state \<Rightarrow> nat \<times> state" where
  "terminate w cfg t s =
     send w \<lparr>m_id = WorkerTerminate, m_configuration = cfg, m_environment = None,
             m_nonce = None\<rparr> t None s"

text \<open>The constructor with its field initialisers: \<open>doInit\<close> creates the \<open>Worker\<close>, installs
  the handlers and posts the first message; the nonce map is empty.\<close>

definition new_SharedProcessWebWorker :: "string \<Rightarrow> state \<Rightarrow> nat \<times> state" where
  "new_SharedProcessWebWorker ty s =
     (let w = length (webworkers s);
          s1 = s\<lparr>webworkers := webworkers s @ [\<lparr>wtype = ty, workerReady = False,
                    readyWaiters = [], initResolved = False, initWaiters = [],
                    mapMessageNonceToMessageResolve = Map.empty\<rparr>]\<rparr>
      in (w, emit (EvLoad w) (emit (EvNewWorker w ty) s1)))"

text \<open>\<open>init\<close>, lines 128-129, and its continuation, line 131.\<close>

definition init :: "nat \<Rightarrow> state \<Rightarrow> state" where
  "init w s = await_workerReady w InitWaits s"

definition init_continue :: "nat \<Rightarrow> state \<Rightarrow> state" where
  "init_continue w s = resolve_init w s"

text \<open>The handler \<open>worker.onmessage\<close> of web worker \<open>w\<close>, lines 150-197.\<close>

definition onmessage :: "nat \<Rightarrow> from_worker_message \<Rightarrow> state \<Rightarrow> state" where
  "onmessage w ev s =
     (let ty = wtype (webworkers s ! w) in
      case r_id ev of
        WorkerReady \<Rightarrow> readyResolve w s
      | WorkerAck \<Rightarrow>
          (if truthy (r_nonce ev) then
             (case mapMessageNonceToMessageResolve (webworkers s ! w) (the (r_nonce ev)) of
                Some messageAwaiter \<Rightarrow>
                  resolve_send messageAwaiter
                    (upd_worker w
                       (\<lambda>y. y\<lparr>mapMessageNonceToMessageResolve :=
                                 (mapMessageNonceToMessageResolve y)(the (r_nonce ev) := None)\<rparr>) s)
              | None \<Rightarrow> s)
           else s)
      | WorkerTrace \<Rightarrow> emit (EvLog LogTrace (FromWorkerLog ty (r_message ev))) s
      | WorkerInfo \<Rightarrow>
          (if truthy (r_message ev) then emit (EvLog LogInfo (TakeAsIsLog (the (r_message ev)))) s
           else s)
      | WorkerWarn \<Rightarrow> emit (EvLog LogWarn (FromWorkerLog ty (r_message ev))) s
      | WorkerError \<Rightarrow> emit (EvLog LogError (FromWorkerLog ty (r_message ev))) s
      | _ \<Rightarrow> emit (EvLog LogWarn (UnexpectedMessageLog ty ev)) s)"

text \<open>The handlers \<open>worker.onerror\<close> and \<open>worker.onmessageerror\<close>.\<close>

definition onerror :: "nat \<Rightarrow> string \<Rightarrow> state \<Rightarrow> state" where
  "onerror w msg s = emit (EvLog LogError (WorkerErrorLog (wtype (webworkers s ! w)) msg)) s"

definition onmessageerror :: "nat \<Rightarrow> state \<Rightarrow> state" where
  "onmessageerror w s = emit (EvLog LogError (WorkerMessageErrorLog (wtype (webworkers s ! w)))) s"

section \<open>\<open>SharedProcessWorkerService\<close>\<close>

text \<open>Modelled from the spec: \<open>MessageChannel\<close> and \<open>MessagePort\<close> belong to the platform.
  A channel has two endpoints, each closable on its own; closing is idempotent.
  \<open>port?.close()\<close> does nothing for a port that is \<open>undefined\<close>.\<close>

definition close_port :: "nat option \<Rightarrow> state \<Rightarrow> state" where
  "close_port p s = (case p of None \<Rightarrow> s | Some q \<Rightarrow> s\<lparr>ports := (ports s)[q := True]\<rparr>)"

text \<open>The dispose closure of invocation \<open>c\<close>, lines 43-55, which \<open>toDisposable\<close> wraps
  and \<open>dispose()\<close> runs. \<open>hsh\<close> is the imported function \<open>hash\<close>; the closure deletes the key
  \<open>configurationHash\<close> it captured.\<close>

definition dispose_closure :: "(configuration \<Rightarrow> int) \<Rightarrow> nat \<Rightarrow> state \<Rightarrow> state" where
  "dispose_closure hsh c s =
     (let cfg = cc_configuration (calls s ! c);
          s1 = upd_call c (\<lambda>x. x\<lparr>cts_cancelled := True\<rparr>) s;
          s2 = (case worker (calls s1 ! c) of None \<Rightarrow> s1
                | Some w \<Rightarrow> snd (terminate w cfg TokenNone s1));
          s3 = close_port (windowPort (calls s2 ! c)) s2;
          s4 = close_port (workerPort (calls s3 ! c)) s3
      in s4\<lparr>processes := (processes s4)(hsh cfg := None)\<rparr>)"

text \<open>\<open>disposeWorker\<close>, lines 107-114. The body has no \<open>await\<close>.\<close>

definition disposeWorker :: "(configuration \<Rightarrow> int) \<Rightarrow> configuration \<Rightarrow> state \<Rightarrow> state" where
  "disposeWorker hsh cfg s =
     (case processes s (hsh cfg) of
        None \<Rightarrow> s
      | Some processDisposable \<Rightarrow>
          dispose_closure hsh processDisposable (emit (EvLog LogTrace (DisposeWorkerLog cfg)) s))"

text \<open>\<open>getOrCreateWebWorker\<close>, lines 86-105. The result is the web worker whose \<open>init\<close>
  promise is returned.\<close>

definition getOrCreateWebWorker :: "configuration \<Rightarrow> state \<Rightarrow> nat \<times> state" where
  "getOrCreateWebWorker cfg s =
     (case workers s (process_moduleId cfg) of
        Some webWorkerPromise \<Rightarrow> (webWorkerPromise, s)
      | None \<Rightarrow>
          (let s1 = emit (EvLog LogTrace (CreatingWebWorkerLog (process_moduleId cfg))) s;
               (w, s2) = new_SharedProcessWebWorker (process_type cfg) s1;
               s3 = init w s2
           in (w, s3\<lparr>workers := (workers s3)(process_moduleId cfg \<mapsto> w)\<rparr>)))"

text \<open>\<open>createWorker\<close>, lines 28-59: up to the first \<open>await\<close>.\<close>

definition createWorker :: "(configuration \<Rightarrow> int) \<Rightarrow> configuration \<Rightarrow> state \<Rightarrow> state" where
  "createWorker hsh cfg s =
     (let s1 = emit (EvLog LogTrace (CreateWorkerLog cfg)) s;
          s2 = disposeWorker hsh cfg s1;
          c = length (calls s2);
          s3 = s2\<lparr>calls := calls s2 @ [\<lparr>cc_configuration = cfg, cts_cancelled = False,
                    worker = None, windowPort = None, workerPort = None, returned = False\<rparr>]\<rparr>;
          s4 = s3\<lparr>processes := (processes s3)(hsh cfg \<mapsto> c)\<rparr>;
          (w, s5) = getOrCreateWebWorker cfg s4
      in await_init w c s5)"

text \<open>\<open>createWorker\<close>, lines 59-73: the assignment to \<open>worker\<close>, the first cancellation
  check, the message channel and the call of \<open>spawn\<close>.\<close>

definition createWorker_afterWorker :: "nat \<Rightarrow> nat \<Rightarrow> state \<Rightarrow> state" where
  "createWorker_afterWorker c w s =
     (let s1 = upd_call c (\<lambda>x. x\<lparr>worker := Some w\<rparr>) s in
      if isCancellationRequested s1 (CtsToken c) then upd_call c (\<lambda>x. x\<lparr>returned := True\<rparr>) s1
      else
        (let port1 = length (ports s1);
             port2 = Suc port1;
             s2 = s1\<lparr>ports := ports s1 @ [False, False]\<rparr>;
             s3 = upd_call c (\<lambda>x. x\<lparr>windowPort := Some port1, workerPort := Some port2\<rparr>) s2;
             (i, s4) = spawn w (cc_configuration (calls s3 ! c)) port2 (CtsToken c) s3
         in await_send i c s4))"

text \<open>\<open>createWorker\<close>, lines 75-84: the second cancellation check and the relay.\<close>

definition createWorker_afterSpawn :: "nat \<Rightarrow> state \<Rightarrow> state" where
  "createWorker_afterSpawn c s =
     (if isCancellationRequested s (CtsToken c) then upd_call c (\<lambda>x. x\<lparr>returned := True\<rparr>) s
      else
        (let cfg = cc_configuration (calls s ! c);
             s1 = emit (EvLog LogTrace (SendingPortLog cfg)) s;
             s2 = emit (EvRelay cfg (windowPort (calls s1 ! c))) s1
         in upd_call c (\<lambda>x. x\<lparr>returned := True\<rparr>) s2))"

section \<open>The event loop\<close>

fun run_continuation :: "continuation \<Rightarrow> string \<Rightarrow> state \<Rightarrow> state" where
  "run_continuation (CreateAfterWorker c w) uuid s = createWorker_afterWorker c w s"
| "run_continuation (CreateAfterSpawn c) uuid s = createWorker_afterSpawn c s"
| "run_continuation (SendAfterReady i) uuid s = send_continue i uuid s"
| "run_continuation (InitAfterReady w) uuid s = init_continue w s"

text \<open>What can happen next: a call of one of the two public methods, the first queued
  continuation (with the value \<open>generateUuid\<close> returns should it be called), or an event of
  the \<open>Worker\<close> of an existing web worker.\<close>

datatype action =
    CallCreateWorker configuration
  | CallDisposeWorker configuration
  | Microtask string
  | WorkerMessage nat from_worker_message
  | WorkerErrorEvent nat string
  | WorkerMessageErrorEvent nat

definition step :: "(configuration \<Rightarrow> int) \<Rightarrow> action \<Rightarrow> state \<Rightarrow> state" where
  "step hsh a s =
     (case a of
        CallCreateWorker cfg \<Rightarrow> createWorker hsh cfg s
      | CallDisposeWorker cfg \<Rightarrow> disposeWorker hsh cfg s
      | Microtask uuid \<Rightarrow>
          (case queue s of [] \<Rightarrow> s | k # ks \<Rightarrow> run_continuation k uuid (s\<lparr>queue := ks\<rparr>))
      | WorkerMessage w ev \<Rightarrow> (if w < length (webworkers s) then onmessage w ev s else s)
      | WorkerErrorEvent w msg \<Rightarrow> (if w < length (webworkers s) then onerror w msg s else s)
      | WorkerMessageErrorEvent w \<Rightarrow> (if w < length (webworkers s) then onmessageerror w s else s))"

fun run :: "(configuration \<Rightarrow> int) \<Rightarrow> action list \<Rightarrow> state \<Rightarrow> state" where
  "run hsh [] s = s"
| "run hsh (a # as) s = run hsh as (step hsh a s)"

section \<open>Reading the trace\<close>

text \<open>The \<open>send\<close> invocations that posted a message, in the order of their posts, and the
  web workers for which a \<open>Worker\<close> was created, in the order of creation.\<close>

fun posts :: "event list \<Rightarrow> nat list" where
  "posts [] = []"
| "posts (EvPost i w m p # es) = i # posts es"
| "posts (e # es) = posts es"

fun new_workers :: "event list \<Rightarrow> nat list" where
  "new_workers [] = []"
| "new_workers (EvNewWorker w ty # es) = w # new_workers es"
| "new_workers (e # es) = new_workers es"

text \<open>The module ids of the log lines \<open>creating new web worker\<close>, which
  \<open>getOrCreateWebWorker\<close> writes just before it creates one.\<close>

fun created_for :: "event list \<Rightarrow> string list" where
  "created_for [] = []"
| "created_for (EvLog l (CreatingWebWorkerLog k) # es) = k # created_for es"
| "created_for (e # es) = created_for es"

section \<open>What the operations never undo\<close>

text \<open>No operation removes an object, changes the arguments of a \<open>send\<close> invocation or the
  configuration of a \<open>createWorker\<close> invocation, resets a cancelled source or a resolved
  \<open>workerReady\<close>, or takes anything back from the trace or the queue.\<close>

definition grows :: "state \<Rightarrow> state \<Rightarrow> bool" where
  "grows s s' =
     (length (calls s) \<le> length (calls s') \<and> length (sends s) \<le> length (sends s') \<and>
      length (webworkers s) \<le> length (webworkers s') \<and>
      (\<forall>w<length (webworkers s). workerReady (webworkers s ! w) \<longrightarrow> workerReady (webworkers s' ! w)) \<and>
      (\<forall>i<length (sends s). target (sends s' ! i) = target (sends s ! i) \<and>
           message (sends s' ! i) = message (sends s ! i) \<and>
           token (sends s' ! i) = token (sends s ! i) \<and> port (sends s' ! i) = port (sends s ! i)) \<and>
      (\<forall>c<length (calls s). cc_configuration (calls s' ! c) = cc_configuration (calls s ! c) \<and>
           (cts_cancelled (calls s ! c) \<longrightarrow> cts_cancelled (calls s' ! c))) \<and>
      (\<exists>new. trace s' = trace s @ new) \<and> (\<exists>new. queue s' = queue s @ new))"

text \<open>Frames: the worker pool, the process registry with the cancellation sources, and the
  posts are each left alone by most operations.\<close>

definition same_pool :: "state \<Rightarrow> state \<Rightarrow> bool" where
  "same_pool s t = (workers t = workers s \<and> length (webworkers t) = length (webworkers s) \<and>
     new_workers (trace t) = new_workers (trace s) \<and>
     created_for (trace t) = created_for (trace s))"

definition same_procs :: "state \<Rightarrow> state \<Rightarrow> bool" where
  "same_procs s t = (processes t = processes s \<and>
     map cc_configuration (calls t) = map cc_configuration (calls s) \<and>
     map cts_cancelled (calls t) = map cts_cancelled (calls s))"

definition same_posts :: "state \<Rightarrow> state \<Rightarrow> bool" where
  "same_posts s t = (posts (trace t) = posts (trace s))"

section \<open>Invariants of the reachable states\<close>

text \<open>References point to existing objects, and a web worker that a continuation or a
  \<open>createWorker\<close> invocation holds has a resolved \<open>workerReady\<close>.\<close>

fun cont_ok :: "state \<Rightarrow> continuation \<Rightarrow> bool" where
  "cont_ok s (CreateAfterWorker c w) =
     (c < length (calls s) \<and> w < length (webworkers s) \<and> workerReady (webworkers s ! w))"
| "cont_ok s (CreateAfterSpawn c) = True"
| "cont_ok s (SendAfterReady i) = (i < length (sends s))"
| "cont_ok s (InitAfterReady w) = (w < length (webworkers s) \<and> workerReady (webworkers s ! w))"

fun waiter_ok :: "state \<Rightarrow> ready_waiter \<Rightarrow> bool" where
  "waiter_ok s InitWaits = True"
| "waiter_ok s (SendWaits i) = (i < length (sends s))"

fun token_ok :: "state \<Rightarrow> token \<Rightarrow> bool" where
  "token_ok s TokenNone = True"
| "token_ok s (CtsToken c) = (c < length (calls s))"

definition worker_ok :: "state \<Rightarrow> web_worker \<Rightarrow> bool" where
  "worker_ok s x =
     ((initResolved x \<longrightarrow> workerReady x) \<and> (\<forall>c\<in>set (initWaiters x). c < length (calls s)) \<and>
      (\<forall>r\<in>set (readyWaiters x). waiter_ok s r))"

definition call_ok :: "state \<Rightarrow> create_call \<Rightarrow> bool" where
  "call_ok s x =
     (\<forall>w. worker x = Some w \<longrightarrow> w < length (webworkers s) \<and> workerReady (webworkers s ! w))"

definition wellformed :: "state \<Rightarrow> bool" where
  "wellformed s =
     ((\<forall>x\<in>set (webworkers s). worker_ok s x) \<and> (\<forall>x\<in>set (calls s). call_ok s x) \<and>
      (\<forall>x\<in>set (sends s). token_ok s (token x)) \<and> (\<forall>k\<in>set (queue s). cont_ok s k) \<and>
      (\<forall>i\<in>set (posts (trace s)). i < length (sends s)) \<and>
      (\<forall>k w. workers s k = Some w \<longrightarrow> w < length (webworkers s)) \<and>
      (\<forall>h c. processes s h = Some c \<longrightarrow> c < length (calls s)))"

text \<open>The pool: the map \<open>workers\<close> is a bijection between the module ids it holds and the
  web workers, every web worker created exactly one \<open>Worker\<close>, and the module id logged
  at the creation of a web worker is the one it is stored under.\<close>

definition pool_inv :: "state \<Rightarrow> bool" where
  "pool_inv s =
     ((\<forall>k w. workers s k = Some w \<longrightarrow> w < length (webworkers s)) \<and>
      (\<forall>w<length (webworkers s). \<exists>k. workers s k = Some w) \<and>
      (\<forall>k k' w. workers s k = Some w \<longrightarrow> workers s k' = Some w \<longrightarrow> k = k') \<and>
      new_workers (trace s) = [0..<length (webworkers s)] \<and>
      map (workers s) (created_for (trace s)) = map Some [0..<length (webworkers s)])"

text \<open>The registry: an entry sits under the hash of its invocation's configuration, and an
  invocation whose source is not cancelled is the entry of its hash.\<close>

definition proc_inv :: "(configuration \<Rightarrow> int) \<Rightarrow> state \<Rightarrow> bool" where
  "proc_inv hsh s =
     ((\<forall>h c. processes s h = Some c \<longrightarrow>
          c < length (calls s) \<and> hsh (cc_configuration (calls s ! c)) = h) \<and>
      (\<forall>c<length (calls s). \<not> cts_cancelled (calls s ! c) \<longrightarrow>
          processes s (hsh (cc_configuration (calls s ! c))) = Some c))"

section \<open>Delivery and order of posts\<close>

text \<open>The message and the \<open>send\<close> invocation that \<open>terminate\<close> makes when the dispose
  closure calls it with \<open>CancellationToken.None\<close>.\<close>

definition terminate_message :: "configuration \<Rightarrow> to_worker_message" where
  "terminate_message cfg =
     \<lparr>m_id = WorkerTerminate, m_configuration = cfg, m_environment = None, m_nonce = None\<rparr>"

definition terminate_send :: "nat \<Rightarrow> configuration \<Rightarrow> send_call" where
  "terminate_send w cfg = \<lparr>target = w, message = terminate_message cfg, token = TokenNone,
     port = None, sendResolved = False, sendWaiters = []\<rparr>"

text \<open>The messages posted, in order, and the number of continuations a list of actions runs.\<close>

fun posted_messages :: "event list \<Rightarrow> to_worker_message list" where
  "posted_messages [] = []"
| "posted_messages (EvPost i w m p # es) = m # posted_messages es"
| "posted_messages (e # es) = posted_messages es"

fun count_microtasks :: "action list \<Rightarrow> nat" where
  "count_microtasks [] = 0"
| "count_microtasks (Microtask u # as) = Suc (count_microtasks as)"
| "count_microtasks (a # as) = count_microtasks as"

text \<open>\<open>precedes a b xs\<close>: \<open>a\<close> occurs in \<open>xs\<close> before the first \<open>b\<close>.\<close>

definition precedes :: "nat \<Rightarrow> nat \<Rightarrow> nat list \<Rightarrow> bool" where
  "precedes a b xs = (a \<in> set (takeWhile (\<lambda>x. x \<noteq> b) xs))"

text \<open>No \<open>send\<close> invocation carries the token of invocation \<open>c\<close> of \<open>createWorker\<close>.\<close>

definition no_token :: "nat \<Rightarrow> state \<Rightarrow> bool" where
  "no_token c s = (\<forall>x\<in>set (sends s). token x \<noteq> CtsToken c)"

text \<open>The \<open>send\<close> invocation \<open>i\<close>, which carries \<open>CancellationToken.None\<close>, posts before any
  \<open>send\<close> with the token of invocation \<open>c\<close>: either \<open>i\<close> has posted and no such \<open>send\<close> posted
  before it, or \<open>i\<close> is queued, the continuation that lets \<open>c\<close> call \<open>spawn\<close> is not queued
  ahead of it, and no such \<open>send\<close> exists yet.\<close>

definition order_inv :: "nat \<Rightarrow> nat \<Rightarrow> state \<Rightarrow> bool" where
  "order_inv i c t =
     (i < length (sends t) \<and> token (sends t ! i) = TokenNone \<and>
      (\<forall>j\<in>set (takeWhile (\<lambda>x. x \<noteq> i) (posts (trace t))).
          j < length (sends t) \<and> token (sends t ! j) \<noteq> CtsToken c) \<and>
      (i \<in> set (posts (trace t)) \<or>
       ((\<exists>pre post. queue t = pre @ SendAfterReady i # post \<and>
            (\<forall>w. CreateAfterWorker c w \<notin> set pre)) \<and> no_token c t)))"

section \<open>Example runs\<close>

text \<open>Two configurations of the same module for two windows, hashed by their window id, and
  the messages a \<open>Worker\<close> sends.\<close>

definition example_cfg :: configuration where
  "example_cfg = \<lparr>process_moduleId = ''m'', process_type = ''t'', reply_windowId = 1\<rparr>"

definition example_cfg2 :: configuration where
  "example_cfg2 = \<lparr>process_moduleId = ''m'', process_type = ''t'', reply_windowId = 2\<rparr>"

definition ready_message :: from_worker_message where
  "ready_message = \<lparr>r_id = WorkerReady, r_message = None, r_nonce = None\<rparr>"

definition ack_message :: "string option \<Rightarrow> from_worker_message" where
  "ack_message n = \<lparr>r_id = WorkerAck, r_message = None, r_nonce = n\<rparr>"

text \<open>A process is created, the worker gets ready, \<open>init\<close> and \<open>createWorker\<close> resume (the
  latter calls \<open>spawn\<close>), and then the process is disposed while the \<open>send\<close> of the spawn
  message is still queued.\<close>

definition state_spawn_queued_then_disposed :: state where
  "state_spawn_queued_then_disposed =
     run reply_windowId [CallCreateWorker example_cfg, WorkerMessage 0 ready_message,
       Microtask ''u1'', Microtask ''u2'', CallDisposeWorker example_cfg] init_state"

text \<open>The same start, but the \<open>send\<close> resumes and posts the spawn message with nonce \<open>u3\<close>.\<close>

definition state_spawn_posted :: state where
  "state_spawn_posted =
     run reply_windowId [CallCreateWorker example_cfg, WorkerMessage 0 ready_message,
       Microtask ''u1'', Microtask ''u2'', Microtask ''u3''] init_state"

text \<open>A process is created and disposed at once, before the worker is ready.\<close>

definition state_disposed_early :: state where
  "state_disposed_early =
     run reply_windowId [CallCreateWorker example_cfg, CallDisposeWorker example_cfg] init_state"

text \<open>The early disposal, followed by the worker getting ready and every queued continuation.\<close>

definition state_disposed_early_drained :: state where
  "state_disposed_early_drained =
     run reply_windowId [WorkerMessage 0 ready_message, Microtask ''u1'', Microtask ''u2'',
       Microtask ''u3''] state_disposed_early"

text \<open>A process is created and replaced at once by a second \<open>createWorker\<close> for the same
  configuration; then the worker gets ready and every queued continuation runs.\<close>

definition state_replaced_early_drained :: state where
  "state_replaced_early_drained =
     run reply_windowId [CallCreateWorker example_cfg, CallCreateWorker example_cfg,
       WorkerMessage 0 ready_message, Microtask ''u1'', Microtask ''u2'', Microtask ''u3'',
       Microtask ''u4''] init_state"

text \<open>A process is created and its \<open>createWorker\<close> has resumed with the worker and called
  \<open>spawn\<close>; then it is replaced and every queued continuation runs.\<close>

definition state_worker_acquired :: state where
  "state_worker_acquired =
     run reply_windowId [CallCreateWorker example_cfg, WorkerMessage 0 ready_message,
       Microtask ''u1'', Microtask ''u2''] init_state"

definition state_replaced_after_spawn :: state where
  "state_replaced_after_spawn =
     run reply_windowId [Microtask ''u3'', Microtask ''u4'', Microtask ''u5'', Microtask ''u6'',
       Microtask ''u7''] (createWorker reply_windowId example_cfg state_worker_acquired)"

section \<open>Lemmas\<close>

subsection \<open>Every operation only grows the state\<close>

lemmas prim_defs = emit_def upd_worker_def upd_call_def upd_send_def enqueue_def

lemma grows_refl: "grows s s" by (simp add: grows_def)
lemma grows_trans: "grows a b \<Longrightarrow> grows b c \<Longrightarrow> grows a c"
  unfolding grows_def
  apply (intro conjI)
         apply (auto)[3]
      apply (metis (no_types, lifting) less_le_trans)
     apply (metis (no_types, lifting) less_le_trans)
    apply (metis (no_types, lifting) less_le_trans)
   apply (metis append.assoc)
  apply (metis append.assoc)
  done

lemma nth_upd_cases: "j < length xs \<Longrightarrow> xs[i := y] ! j = (if i = j then y else xs ! j)"
  by (simp add: nth_list_update)

lemma grows_emit: "grows s t \<Longrightarrow> grows s (emit e t)"
  by (erule grows_trans) (simp add: grows_def prim_defs)
lemma grows_enqueue: "grows s t \<Longrightarrow> grows s (enqueue ks t)"
  by (erule grows_trans) (simp add: grows_def prim_defs)
lemma grows_upd_worker: "(\<And>x. workerReady x \<Longrightarrow> workerReady (f x)) \<Longrightarrow> grows s t \<Longrightarrow> grows s (upd_worker w f t)"
  by (erule grows_trans) (auto simp add: grows_def prim_defs nth_upd_cases)
lemma grows_upd_call: "(\<And>x. cc_configuration (f x) = cc_configuration x) \<Longrightarrow> (\<And>x. cts_cancelled x \<Longrightarrow> cts_cancelled (f x)) \<Longrightarrow> grows s t \<Longrightarrow> grows s (upd_call c f t)"
  by (erule grows_trans) (auto simp add: grows_def prim_defs nth_upd_cases)
lemma grows_upd_send: "(\<And>x. target (f x) = target x \<and> message (f x) = message x \<and> token (f x) = token x \<and> port (f x) = port x) \<Longrightarrow> grows s t \<Longrightarrow> grows s (upd_send c f t)"
  by (erule grows_trans) (auto simp add: grows_def prim_defs nth_upd_cases)
lemma grows_app_send: "grows s t \<Longrightarrow> grows s (t\<lparr>sends := sends t @ [x]\<rparr>)"
  by (erule grows_trans) (auto simp add: grows_def nth_append)
lemma grows_app_call: "grows s t \<Longrightarrow> grows s (t\<lparr>calls := calls t @ [x]\<rparr>)"
  by (erule grows_trans) (auto simp add: grows_def nth_append)
lemma grows_app_worker: "grows s t \<Longrightarrow> grows s (t\<lparr>webworkers := webworkers t @ [x]\<rparr>)"
  by (erule grows_trans) (auto simp add: grows_def nth_append)
lemma grows_ports: "grows s t \<Longrightarrow> grows s (t\<lparr>ports := x\<rparr>)"
  by (erule grows_trans) (auto simp add: grows_def)
lemma grows_processes: "grows s t \<Longrightarrow> grows s (t\<lparr>processes := y\<rparr>)"
  by (erule grows_trans) (auto simp add: grows_def)
lemma grows_workers: "grows s t \<Longrightarrow> grows s (t\<lparr>workers := z\<rparr>)"
  by (erule grows_trans) (auto simp add: grows_def)

lemmas grows_prims = grows_emit grows_enqueue grows_upd_worker grows_upd_call grows_upd_send
  grows_app_send grows_app_call grows_app_worker grows_ports grows_processes grows_workers

lemma grows_await_workerReady: "grows s t \<Longrightarrow> grows s (await_workerReady w k t)"
  by (simp add: await_workerReady_def grows_prims)
lemma grows_readyResolve: "grows s t \<Longrightarrow> grows s (readyResolve w t)"
  by (simp add: readyResolve_def grows_prims)
lemma grows_await_init: "grows s t \<Longrightarrow> grows s (await_init w k t)"
  by (simp add: await_init_def grows_prims)
lemma grows_resolve_init: "grows s t \<Longrightarrow> grows s (resolve_init w t)"
  by (simp add: resolve_init_def grows_prims)
lemma grows_await_send: "grows s t \<Longrightarrow> grows s (await_send w k t)"
  by (simp add: await_send_def grows_prims)
lemma grows_resolve_send: "grows s t \<Longrightarrow> grows s (resolve_send w t)"
  by (simp add: resolve_send_def grows_prims)
lemma grows_send: "grows s t \<Longrightarrow> grows s (snd (send w m tk p t))"
  by (simp add: send_def Let_def grows_prims grows_await_workerReady)
lemma grows_send_continue: "grows s t \<Longrightarrow> grows s (send_continue i u t)"
  by (simp add: send_continue_def Let_def grows_resolve_send grows_prims)
lemma grows_spawn: "grows s t \<Longrightarrow> grows s (snd (spawn w c p tk t))"
  by (simp add: spawn_def grows_send)
lemma grows_terminate: "grows s t \<Longrightarrow> grows s (snd (terminate w c tk t))"
  by (simp add: terminate_def grows_send)
lemma grows_new: "grows s t \<Longrightarrow> grows s (snd (new_SharedProcessWebWorker ty t))"
  by (simp add: new_SharedProcessWebWorker_def Let_def grows_prims)
lemma grows_init: "grows s t \<Longrightarrow> grows s (init w t)"
  by (simp add: init_def grows_await_workerReady)
lemma grows_init_continue: "grows s t \<Longrightarrow> grows s (init_continue w t)"
  by (simp add: init_continue_def grows_resolve_init)
lemma grows_onmessage: "grows s t \<Longrightarrow> grows s (onmessage w ev t)"
  by (simp add: onmessage_def Let_def grows_prims grows_readyResolve grows_resolve_send split: message_id.splits option.splits)
lemma grows_onerror: "grows s t \<Longrightarrow> grows s (onerror w m t)"
  by (simp add: onerror_def grows_prims)
lemma grows_onmessageerror: "grows s t \<Longrightarrow> grows s (onmessageerror w t)"
  by (simp add: onmessageerror_def grows_prims)
lemma grows_close_port: "grows s t \<Longrightarrow> grows s (close_port p t)"
  by (simp add: close_port_def grows_prims split: option.splits)
lemma grows_dispose_closure: "grows s t \<Longrightarrow> grows s (dispose_closure h c t)"
  by (simp add: dispose_closure_def Let_def grows_prims grows_close_port grows_terminate split: option.splits)
lemma grows_disposeWorker: "grows s t \<Longrightarrow> grows s (disposeWorker h c t)"
  by (simp add: disposeWorker_def grows_dispose_closure grows_prims split: option.splits)
lemma grows_getOrCreateWebWorker: "grows s t \<Longrightarrow> grows s (snd (getOrCreateWebWorker c t))"
  by (simp add: getOrCreateWebWorker_def Let_def case_prod_beta grows_prims grows_init grows_new split: option.splits)
lemma grows_createWorker: "grows s t \<Longrightarrow> grows s (createWorker h c t)"
  by (simp add: createWorker_def Let_def case_prod_beta grows_prims grows_await_init grows_getOrCreateWebWorker grows_disposeWorker)
lemma grows_afterWorker: "grows s t \<Longrightarrow> grows s (createWorker_afterWorker c w t)"
  by (simp add: createWorker_afterWorker_def Let_def case_prod_beta grows_prims grows_await_send grows_spawn)
lemma grows_afterSpawn: "grows s t \<Longrightarrow> grows s (createWorker_afterSpawn c t)"
  by (simp add: createWorker_afterSpawn_def Let_def case_prod_beta grows_prims)
lemma grows_run_continuation: "grows s t \<Longrightarrow> grows s (run_continuation k u t)"
  by (cases k) (simp_all add: grows_afterSpawn grows_afterWorker grows_send_continue grows_init_continue)

subsection \<open>Well-formed states\<close>

lemma posts_append [simp]: "posts (xs @ ys) = posts xs @ posts ys"
  by (induction xs rule: posts.induct) simp_all

lemma emit_fields [simp]:
  "workers (emit e s) = workers s" "processes (emit e s) = processes s"
  "webworkers (emit e s) = webworkers s" "calls (emit e s) = calls s" "sends (emit e s) = sends s"
  "ports (emit e s) = ports s" "queue (emit e s) = queue s" "trace (emit e s) = trace s @ [e]"
  by (simp_all add: emit_def)

lemma enqueue_fields [simp]:
  "workers (enqueue ks s) = workers s" "processes (enqueue ks s) = processes s"
  "webworkers (enqueue ks s) = webworkers s" "calls (enqueue ks s) = calls s"
  "sends (enqueue ks s) = sends s" "ports (enqueue ks s) = ports s"
  "queue (enqueue ks s) = queue s @ ks" "trace (enqueue ks s) = trace s"
  by (simp_all add: enqueue_def)

lemma upd_worker_fields [simp]:
  "workers (upd_worker w f s) = workers s" "processes (upd_worker w f s) = processes s"
  "webworkers (upd_worker w f s) = (webworkers s)[w := f (webworkers s ! w)]"
  "calls (upd_worker w f s) = calls s" "sends (upd_worker w f s) = sends s"
  "ports (upd_worker w f s) = ports s" "queue (upd_worker w f s) = queue s"
  "trace (upd_worker w f s) = trace s"
  by (simp_all add: upd_worker_def)

lemma upd_call_fields [simp]:
  "workers (upd_call c f s) = workers s" "processes (upd_call c f s) = processes s"
  "webworkers (upd_call c f s) = webworkers s"
  "calls (upd_call c f s) = (calls s)[c := f (calls s ! c)]" "sends (upd_call c f s) = sends s"
  "ports (upd_call c f s) = ports s" "queue (upd_call c f s) = queue s"
  "trace (upd_call c f s) = trace s"
  by (simp_all add: upd_call_def)

lemma upd_send_fields [simp]:
  "workers (upd_send i f s) = workers s" "processes (upd_send i f s) = processes s"
  "webworkers (upd_send i f s) = webworkers s" "calls (upd_send i f s) = calls s"
  "sends (upd_send i f s) = (sends s)[i := f (sends s ! i)]"
  "ports (upd_send i f s) = ports s" "queue (upd_send i f s) = queue s"
  "trace (upd_send i f s) = trace s"
  by (simp_all add: upd_send_def)

lemma in_set_update: "x \<in> set (xs[i := y]) \<Longrightarrow> x \<in> set xs \<or> (i < length xs \<and> x = y)"
  by (metis in_set_conv_nth length_list_update nth_list_update_eq nth_list_update_neq)

lemma cont_ok_grows: "grows s t \<Longrightarrow> cont_ok s k \<Longrightarrow> cont_ok t k"
  by (cases k) (auto simp add: grows_def)
lemma waiter_ok_grows: "grows s t \<Longrightarrow> waiter_ok s k \<Longrightarrow> waiter_ok t k"
  by (cases k) (auto simp add: grows_def)
lemma token_ok_grows: "grows s t \<Longrightarrow> token_ok s k \<Longrightarrow> token_ok t k"
  by (cases k) (auto simp add: grows_def)
lemma worker_ok_grows: "grows s t \<Longrightarrow> worker_ok s x \<Longrightarrow> worker_ok t x"
  unfolding worker_ok_def using waiter_ok_grows by (fastforce simp add: grows_def)
lemma call_ok_grows: "grows s t \<Longrightarrow> call_ok s x \<Longrightarrow> call_ok t x"
  unfolding call_ok_def by (fastforce simp add: grows_def)

lemma wf_grows:
  assumes "wellformed s" "grows s t"
    and "\<forall>x\<in>set (webworkers t). x \<in> set (webworkers s) \<or> worker_ok t x"
    and "\<forall>x\<in>set (calls t). x \<in> set (calls s) \<or> call_ok t x"
    and "\<forall>x\<in>set (sends t). x \<in> set (sends s) \<or> token_ok t (token x)"
    and "\<forall>k\<in>set (queue t). k \<in> set (queue s) \<or> cont_ok t k"
    and "\<forall>i\<in>set (posts (trace t)). i \<in> set (posts (trace s)) \<or> i < length (sends t)"
    and "\<forall>k w. workers t k = Some w \<longrightarrow> workers s k = Some w \<or> w < length (webworkers t)"
    and "\<forall>h c. processes t h = Some c \<longrightarrow> processes s h = Some c \<or> c < length (calls t)"
  shows "wellformed t"
proof -
  have len: "length (calls s) \<le> length (calls t)" "length (sends s) \<le> length (sends t)"
    "length (webworkers s) \<le> length (webworkers t)"
    using assms(2) by (simp_all add: grows_def)
  have 1: "\<forall>x\<in>set (webworkers t). worker_ok t x"
    using assms(1,3) worker_ok_grows[OF assms(2)] unfolding wellformed_def by blast
  have 2: "\<forall>x\<in>set (calls t). call_ok t x"
    using assms(1,4) call_ok_grows[OF assms(2)] unfolding wellformed_def by blast
  have 3: "\<forall>x\<in>set (sends t). token_ok t (token x)"
    using assms(1,5) token_ok_grows[OF assms(2)] unfolding wellformed_def by blast
  have 4: "\<forall>k\<in>set (queue t). cont_ok t k"
    using assms(1,6) cont_ok_grows[OF assms(2)] unfolding wellformed_def by blast
  have 5: "\<forall>i\<in>set (posts (trace t)). i < length (sends t)"
    using assms(1,7) len unfolding wellformed_def by (meson less_le_trans)
  have 6: "\<forall>k w. workers t k = Some w \<longrightarrow> w < length (webworkers t)"
    using assms(1,8) len unfolding wellformed_def by (meson less_le_trans)
  have 7: "\<forall>h c. processes t h = Some c \<longrightarrow> c < length (calls t)"
    using assms(1,9) len unfolding wellformed_def by (meson less_le_trans)
  show ?thesis unfolding wellformed_def using 1 2 3 4 5 6 7 by blast
qed

lemma wf_emit: "wellformed t \<Longrightarrow> (\<forall>i w m p. e = EvPost i w m p \<longrightarrow> i < length (sends t)) \<Longrightarrow> wellformed (emit e t)"
  by (rule wf_grows[where s=t]) (cases e; auto simp add: grows_emit grows_refl)+

lemma wf_enqueue: "wellformed t \<Longrightarrow> \<forall>k\<in>set ks. cont_ok t k \<Longrightarrow> wellformed (enqueue ks t)"
  apply (rule wf_grows[where s=t]) 
          apply (auto simp add: grows_enqueue grows_refl)
  using cont_ok_grows[OF grows_enqueue[OF grows_refl]] by blast

lemma wf_worker_okD: "wellformed t \<Longrightarrow> w < length (webworkers t) \<Longrightarrow> worker_ok t (webworkers t ! w)"
  by (simp add: wellformed_def)
lemma wf_call_okD: "wellformed t \<Longrightarrow> c < length (calls t) \<Longrightarrow> call_ok t (calls t ! c)"
  by (simp add: wellformed_def)

lemma wf_upd_worker:
  assumes "wellformed t"
    and "w < length (webworkers t) \<Longrightarrow> worker_ok t (f (webworkers t ! w))"
    and "w < length (webworkers t) \<Longrightarrow> workerReady (webworkers t ! w) \<Longrightarrow> workerReady (f (webworkers t ! w))"
  shows "wellformed (upd_worker w f t)"
proof (rule wf_grows[OF assms(1)])
  show g: "grows t (upd_worker w f t)"
    using assms(3) by (auto simp add: grows_def nth_upd_cases)
  show "\<forall>x\<in>set (webworkers (upd_worker w f t)). x \<in> set (webworkers t) \<or> worker_ok (upd_worker w f t) x"
    using assms(2) worker_ok_grows[OF g] by (auto dest!: in_set_update)
qed simp_all

lemma wf_upd_call:
  assumes "wellformed t"
    and "c < length (calls t) \<Longrightarrow> call_ok t (f (calls t ! c))"
    and "\<And>x. cc_configuration (f x) = cc_configuration x" "\<And>x. cts_cancelled x \<Longrightarrow> cts_cancelled (f x)"
  shows "wellformed (upd_call c f t)"
proof (rule wf_grows[OF assms(1)])
  show g: "grows t (upd_call c f t)"
    using assms(3,4) by (intro grows_upd_call grows_refl)
  show "\<forall>x\<in>set (calls (upd_call c f t)). x \<in> set (calls t) \<or> call_ok (upd_call c f t) x"
    using assms(2) call_ok_grows[OF g] by (auto dest!: in_set_update)
qed simp_all

lemma wf_upd_send:
  assumes "wellformed t"
    and "\<And>x. target (f x) = target x \<and> message (f x) = message x \<and> token (f x) = token x \<and> port (f x) = port x"
  shows "wellformed (upd_send i f t)"
proof (rule wf_grows[OF assms(1)])
  show g: "grows t (upd_send i f t)"
    using assms(2) by (intro grows_upd_send grows_refl)
  have "token_ok t (token (sends t ! i))" if "i < length (sends t)"
    using assms(1) that by (simp add: wellformed_def)
  then show "\<forall>x\<in>set (sends (upd_send i f t)). x \<in> set (sends t) \<or> token_ok (upd_send i f t) (token x)"
    using assms(2) token_ok_grows[OF g] by (auto dest!: in_set_update)
qed simp_all

lemma wf_app_send: "wellformed t \<Longrightarrow> token_ok t (token x) \<Longrightarrow> wellformed (t\<lparr>sends := sends t @ [x]\<rparr>)"
  apply (rule wf_grows[where s=t])
          apply (auto simp add: grows_app_send grows_refl)
  using token_ok_grows[OF grows_app_send[OF grows_refl]] by blast

lemma wf_app_call: "wellformed t \<Longrightarrow> worker x = None \<Longrightarrow> wellformed (t\<lparr>calls := calls t @ [x]\<rparr>)"
  by (rule wf_grows[where s=t]) (auto simp add: grows_app_call grows_refl call_ok_def)

lemma wf_app_worker: "wellformed t \<Longrightarrow> \<not> initResolved x \<Longrightarrow> initWaiters x = [] \<Longrightarrow> readyWaiters x = [] \<Longrightarrow>
   wellformed (t\<lparr>webworkers := webworkers t @ [x]\<rparr>)"
  by (rule wf_grows[where s=t]) (auto simp add: grows_app_worker grows_refl worker_ok_def)

lemma wf_ports: "wellformed t \<Longrightarrow> wellformed (t\<lparr>ports := x\<rparr>)"
  by (rule wf_grows[where s=t]) (auto simp add: grows_ports grows_refl)

lemma wf_processes: "wellformed t \<Longrightarrow> \<forall>h c. y h = Some c \<longrightarrow> c < length (calls t) \<Longrightarrow> wellformed (t\<lparr>processes := y\<rparr>)"
  by (rule wf_grows[where s=t]) (auto simp add: grows_processes grows_refl)

lemma wf_workers: "wellformed t \<Longrightarrow> \<forall>k w. z k = Some w \<longrightarrow> w < length (webworkers t) \<Longrightarrow> wellformed (t\<lparr>workers := z\<rparr>)"
  by (rule wf_grows[where s=t]) (auto simp add: grows_workers grows_refl)

lemma ok_queue_upd [simp]:
  "cont_ok (t\<lparr>queue := q\<rparr>) k = cont_ok t k" "waiter_ok (t\<lparr>queue := q\<rparr>) r = waiter_ok t r"
  "token_ok (t\<lparr>queue := q\<rparr>) tk = token_ok t tk" "worker_ok (t\<lparr>queue := q\<rparr>) x = worker_ok t x"
  "call_ok (t\<lparr>queue := q\<rparr>) y = call_ok t y"
proof -
  show "cont_ok (t\<lparr>queue := q\<rparr>) k = cont_ok t k" by (cases k) simp_all
  show w: "\<And>r. waiter_ok (t\<lparr>queue := q\<rparr>) r = waiter_ok t r" subgoal for r by (cases r) simp_all done
  show "token_ok (t\<lparr>queue := q\<rparr>) tk = token_ok t tk" by (cases tk) simp_all
  show "worker_ok (t\<lparr>queue := q\<rparr>) x = worker_ok t x" by (simp add: worker_ok_def w)
  show "call_ok (t\<lparr>queue := q\<rparr>) y = call_ok t y" by (simp add: call_ok_def)
qed

lemma wf_queue_tl: "wellformed t \<Longrightarrow> queue t = k # ks \<Longrightarrow> wellformed (t\<lparr>queue := ks\<rparr>) \<and> cont_ok t k"
  by (simp add: wellformed_def)

subsection \<open>Every operation keeps states well-formed\<close>

lemma wf_await_workerReady:
  "wellformed t \<Longrightarrow> w < length (webworkers t) \<Longrightarrow> waiter_ok t k \<Longrightarrow> wellformed (await_workerReady w k t)"
  unfolding await_workerReady_def
  by (cases k) (auto intro!: wf_enqueue wf_upd_worker dest: wf_worker_okD simp add: worker_ok_def)

lemma wf_readyResolve:
  assumes "wellformed t" "w < length (webworkers t)"
  shows "wellformed (readyResolve w t)"
proof (cases "workerReady (webworkers t ! w)")
  case True
  then show ?thesis using assms by (simp add: readyResolve_def)
next
  case False
  let ?t = "upd_worker w (\<lambda>x. x\<lparr>workerReady := True, readyWaiters := []\<rparr>) t"
  have ok: "worker_ok t (webworkers t ! w)" using assms by (rule wf_worker_okD)
  have 1: "wellformed ?t"
    using assms ok by (intro wf_upd_worker) (auto simp add: worker_ok_def)
  have 2: "cont_ok ?t (ready_cont w r)" if "r \<in> set (readyWaiters (webworkers t ! w))" for r
    by (cases r; use that ok assms(2) in \<open>auto simp add: worker_ok_def\<close>)
  show ?thesis using False 1 2 by (auto simp add: readyResolve_def intro!: wf_enqueue)
qed

lemma wf_await_init:
  "wellformed t \<Longrightarrow> w < length (webworkers t) \<Longrightarrow> c < length (calls t) \<Longrightarrow> wellformed (await_init w c t)"
  unfolding await_init_def
  by (auto intro!: wf_enqueue wf_upd_worker dest: wf_worker_okD simp add: worker_ok_def)

lemma wf_resolve_init:
  assumes "wellformed t" "w < length (webworkers t)" "workerReady (webworkers t ! w)"
  shows "wellformed (resolve_init w t)"
proof (cases "initResolved (webworkers t ! w)")
  case True
  then show ?thesis using assms by (simp add: resolve_init_def)
next
  case False
  let ?t = "upd_worker w (\<lambda>x. x\<lparr>initResolved := True, initWaiters := []\<rparr>) t"
  have ok: "worker_ok t (webworkers t ! w)" using assms(1,2) by (rule wf_worker_okD)
  have 1: "wellformed ?t"
    using assms ok by (intro wf_upd_worker) (auto simp add: worker_ok_def)
  have 2: "cont_ok ?t (CreateAfterWorker c w)" if "c \<in> set (initWaiters (webworkers t ! w))" for c
    using that ok assms(2,3) by (auto simp add: worker_ok_def)
  show ?thesis using False 1 2 assms(3) by (auto simp add: resolve_init_def intro!: wf_enqueue)
qed

lemma wf_await_send: "wellformed t \<Longrightarrow> wellformed (await_send i c t)"
  unfolding await_send_def by (auto intro!: wf_enqueue wf_upd_send)

lemma wf_resolve_send: "wellformed t \<Longrightarrow> wellformed (resolve_send i t)"
  unfolding resolve_send_def by (auto intro!: wf_enqueue wf_upd_send)

lemma send_fst [simp]: "fst (send w m tk p t) = length (sends t)"
  by (simp add: send_def Let_def)

lemma wf_send:
  "wellformed t \<Longrightarrow> w < length (webworkers t) \<Longrightarrow> token_ok t tk \<Longrightarrow> wellformed (snd (send w m tk p t))"
  by (simp add: send_def Let_def wf_await_workerReady wf_app_send)

lemma wf_send_continue:
  "wellformed t \<Longrightarrow> i < length (sends t) \<Longrightarrow> wellformed (send_continue i u t)"
  unfolding send_continue_def Let_def
  by (auto intro!: wf_resolve_send wf_emit wf_upd_worker dest: wf_worker_okD simp add: worker_ok_def)

lemma wf_new:
  "wellformed t \<Longrightarrow> wellformed (snd (new_SharedProcessWebWorker ty t))"
  by (simp add: new_SharedProcessWebWorker_def Let_def wf_emit wf_app_worker)

lemma new_fst [simp]: "fst (new_SharedProcessWebWorker ty t) = length (webworkers t)"
  by (simp add: new_SharedProcessWebWorker_def Let_def)

lemma new_webworkers_length [simp]:
  "length (webworkers (snd (new_SharedProcessWebWorker ty t))) = Suc (length (webworkers t))"
  by (simp add: new_SharedProcessWebWorker_def Let_def)

lemma wf_onmessage:
  "wellformed t \<Longrightarrow> w < length (webworkers t) \<Longrightarrow> wellformed (onmessage w ev t)"
  unfolding onmessage_def Let_def
  by (auto intro!: wf_readyResolve wf_emit wf_resolve_send wf_upd_worker dest: wf_worker_okD
      simp add: worker_ok_def split: message_id.splits option.splits)

lemma wf_close_port: "wellformed t \<Longrightarrow> wellformed (close_port p t)"
  by (simp add: close_port_def wf_ports split: option.splits)

lemma close_port_fields [simp]:
  "workers (close_port p s) = workers s" "processes (close_port p s) = processes s"
  "webworkers (close_port p s) = webworkers s" "calls (close_port p s) = calls s"
  "sends (close_port p s) = sends s" "queue (close_port p s) = queue s" "trace (close_port p s) = trace s"
  by (simp_all add: close_port_def split: option.splits)

lemma await_workerReady_fields [simp]:
  "workers (await_workerReady w k s) = workers s" "processes (await_workerReady w k s) = processes s"
  "length (webworkers (await_workerReady w k s)) = length (webworkers s)"
  "calls (await_workerReady w k s) = calls s" "sends (await_workerReady w k s) = sends s"
  "ports (await_workerReady w k s) = ports s" "trace (await_workerReady w k s) = trace s"
  by (simp_all add: await_workerReady_def)

lemma send_fields [simp]:
  "workers (snd (send w m tk p s)) = workers s" "processes (snd (send w m tk p s)) = processes s"
  "length (webworkers (snd (send w m tk p s))) = length (webworkers s)"
  "calls (snd (send w m tk p s)) = calls s"
  "ports (snd (send w m tk p s)) = ports s" "trace (snd (send w m tk p s)) = trace s"
  by (simp_all add: send_def Let_def)

lemma wf_dispose_closure:
  assumes "wellformed t" "c < length (calls t)"
  shows "wellformed (dispose_closure h c t)"
proof -
  let ?s1 = "upd_call c (\<lambda>x. x\<lparr>cts_cancelled := True\<rparr>) t"
  have ok: "call_ok t (calls t ! c)" using assms by (rule wf_call_okD)
  have 1: "wellformed ?s1"
    using assms ok by (intro wf_upd_call) (auto simp add: call_ok_def)
  let ?s2 = "case worker (calls ?s1 ! c) of None \<Rightarrow> ?s1
       | Some w \<Rightarrow> snd (terminate w (cc_configuration (calls t ! c)) TokenNone ?s1)"
  have 2: "wellformed ?s2"
    using 1 ok assms(2) by (auto simp add: terminate_def call_ok_def intro!: wf_send split: option.splits)
  have 3: "calls ?s2 = calls ?s1"
    by (simp add: terminate_def split: option.splits)
  show ?thesis
    unfolding dispose_closure_def Let_def
    using 2 3 by (intro wf_processes wf_close_port) (auto simp add: wellformed_def)
qed

lemma wf_disposeWorker:
  assumes "wellformed t" shows "wellformed (disposeWorker h cfg t)"
proof (cases "processes t (h cfg)")
  case None
  then show ?thesis using assms by (simp add: disposeWorker_def)
next
  case (Some c)
  have "c < length (calls t)" using assms Some by (simp add: wellformed_def)
  then show ?thesis using assms Some by (simp add: disposeWorker_def wf_dispose_closure wf_emit)
qed

lemma wf_getOrCreateWebWorker:
  assumes "wellformed t"
  shows "wellformed (snd (getOrCreateWebWorker cfg t)) \<and>
         fst (getOrCreateWebWorker cfg t) < length (webworkers (snd (getOrCreateWebWorker cfg t))) \<and>
         calls (snd (getOrCreateWebWorker cfg t)) = calls t"
proof (cases "workers t (process_moduleId cfg)")
  case (Some w)
  then show ?thesis using assms by (simp add: getOrCreateWebWorker_def wellformed_def)
next
  case None
  let ?s1 = "emit (EvLog LogTrace (CreatingWebWorkerLog (process_moduleId cfg))) t"
  let ?s2 = "snd (new_SharedProcessWebWorker (process_type cfg) ?s1)"
  let ?w = "length (webworkers t)"
  let ?s3 = "init ?w ?s2"
  have 2: "wellformed ?s2" using assms by (intro wf_new wf_emit) auto
  have 3: "wellformed ?s3" unfolding init_def using 2 by (intro wf_await_workerReady) auto
  have 4: "length (webworkers ?s3) = Suc ?w" by (simp add: init_def)
  have 5: "wellformed (?s3\<lparr>workers := (workers ?s3)(process_moduleId cfg \<mapsto> ?w)\<rparr>)"
    using 3 4 assms by (intro wf_workers) (auto simp add: wellformed_def init_def less_Suc_eq)
  have 6: "calls ?s3 = calls t"
    by (simp add: init_def new_SharedProcessWebWorker_def Let_def)
  show ?thesis
    using None 4 5 6 by (simp add: getOrCreateWebWorker_def Let_def case_prod_beta)
qed

lemma wf_createWorker: 
  assumes "wellformed t" shows "wellformed (createWorker h cfg t)"
proof -
  let ?s2 = "disposeWorker h cfg (emit (EvLog LogTrace (CreateWorkerLog cfg)) t)"
  let ?c = "length (calls ?s2)"
  let ?s3 = "?s2\<lparr>calls := calls ?s2 @ [\<lparr>cc_configuration = cfg, cts_cancelled = False,
                    worker = None, windowPort = None, workerPort = None, returned = False\<rparr>]\<rparr>"
  let ?s4 = "?s3\<lparr>processes := (processes ?s3)(h cfg \<mapsto> ?c)\<rparr>"
  have 2: "wellformed ?s2" using assms by (intro wf_disposeWorker wf_emit) auto
  have 3: "wellformed ?s3" using 2 by (intro wf_app_call) auto
  have 4: "wellformed ?s4" using 3 2 by (intro wf_processes) (auto simp add: wellformed_def less_Suc_eq)
  note g = wf_getOrCreateWebWorker[OF 4, of cfg]
  show ?thesis
    unfolding createWorker_def Let_def case_prod_beta
    using g by (intro wf_await_init) auto
qed

lemma wf_afterWorker:
  assumes "wellformed t" "c < length (calls t)" "w < length (webworkers t)" "workerReady (webworkers t ! w)"
  shows "wellformed (createWorker_afterWorker c w t)"
proof -
  let ?s1 = "upd_call c (\<lambda>x. x\<lparr>worker := Some w\<rparr>) t"
  have 1: "wellformed ?s1"
    using assms by (rule_tac wf_upd_call) (auto simp add: call_ok_def)
  have r: "wellformed (upd_call c (\<lambda>x. x\<lparr>returned := True\<rparr>) ?s1)"
    using wf_call_okD[OF 1, of c] assms(2) by (rule_tac wf_upd_call) (simp_all add: call_ok_def 1)
  let ?s2 = "?s1\<lparr>ports := ports ?s1 @ [False, False]\<rparr>"
  let ?s3 = "upd_call c (\<lambda>x. x\<lparr>windowPort := Some (length (ports ?s1)), workerPort := Some (Suc (length (ports ?s1)))\<rparr>) ?s2"
  have 2: "wellformed ?s2" using 1 by (rule wf_ports)
  have 3: "wellformed ?s3"
    using wf_call_okD[OF 2, of c] assms(2) 2 by (rule_tac wf_upd_call) (simp_all add: call_ok_def)
  have 4: "wellformed (snd (spawn w (cc_configuration (calls ?s3 ! c)) (Suc (length (ports ?s1))) (CtsToken c) ?s3))"
    unfolding spawn_def using 3 assms by (intro wf_send) auto
  show ?thesis
    unfolding createWorker_afterWorker_def Let_def case_prod_beta
    using r 4 by (auto intro!: wf_await_send)
qed

lemma wf_upd_call_returned: "wellformed t \<Longrightarrow> wellformed (upd_call c (\<lambda>x. x\<lparr>returned := True\<rparr>) t)"
  using wf_call_okD[of t c] by (rule_tac wf_upd_call) (simp_all add: call_ok_def)

lemma wf_afterSpawn:
  assumes "wellformed t"
  shows "wellformed (createWorker_afterSpawn c t)"
  unfolding createWorker_afterSpawn_def Let_def using assms
  by (simp add: wf_upd_call_returned wf_emit)

lemma wf_run_continuation:
  "wellformed t \<Longrightarrow> cont_ok t k \<Longrightarrow> wellformed (run_continuation k u t)"
  by (cases k) (auto simp add: init_continue_def intro: wf_afterWorker wf_afterSpawn wf_send_continue wf_resolve_init)

lemma wf_step: "wellformed t \<Longrightarrow> wellformed (step h a t)"
  unfolding step_def
  by (auto split: action.splits list.splits simp add: onerror_def onmessageerror_def
      intro!: wf_createWorker wf_disposeWorker wf_onmessage wf_emit wf_run_continuation dest: wf_queue_tl)

lemma wf_run: "wellformed t \<Longrightarrow> wellformed (run h acts t)"
  by (induction acts arbitrary: t) (simp_all add: wf_step)

lemma wf_init_state: "wellformed init_state"
  by (simp add: wellformed_def init_state_def)

subsection \<open>Frames\<close>

lemma new_workers_append [simp]: "new_workers (xs @ ys) = new_workers xs @ new_workers ys"
  by (induction xs rule: new_workers.induct) simp_all

lemma map_update_same: "f y = f (xs ! i) \<Longrightarrow> map f (xs[i := y]) = map f xs"
  by (metis list_update_id map_update)

lemma created_for_append [simp]: "created_for (xs @ ys) = created_for xs @ created_for ys"
  by (induction xs rule: created_for.induct) simp_all

lemma created_for_other:
  "\<forall>l k. e \<noteq> EvLog l (CreatingWebWorkerLog k) \<Longrightarrow> created_for [e] = []"
proof (cases e)
  case (EvLog l x)
  assume "\<forall>l k. e \<noteq> EvLog l (CreatingWebWorkerLog k)"
  then show ?thesis using EvLog by (cases x) simp_all
qed simp_all

lemma same_pool_refl: "same_pool s s" by (simp add: same_pool_def)
lemma same_procs_refl: "same_procs s s" by (simp add: same_procs_def)
lemma same_posts_refl: "same_posts s s" by (simp add: same_posts_def)

lemma same_pool_prims:
  "same_pool s t \<Longrightarrow> \<forall>w ty. e \<noteq> EvNewWorker w ty \<Longrightarrow>
     \<forall>l k. e \<noteq> EvLog l (CreatingWebWorkerLog k) \<Longrightarrow> same_pool s (emit e t)"
  "same_pool s t \<Longrightarrow> same_pool s (enqueue ks t)"
  "same_pool s t \<Longrightarrow> same_pool s (upd_worker w f t)"
  "same_pool s t \<Longrightarrow> same_pool s (upd_call c g t)"
  "same_pool s t \<Longrightarrow> same_pool s (upd_send i h t)"
  "same_pool s t \<Longrightarrow> same_pool s (t\<lparr>sends := x1\<rparr>)"
  "same_pool s t \<Longrightarrow> same_pool s (t\<lparr>calls := x2\<rparr>)"
  "same_pool s t \<Longrightarrow> same_pool s (t\<lparr>ports := x3\<rparr>)"
  "same_pool s t \<Longrightarrow> same_pool s (t\<lparr>processes := x4\<rparr>)"
  "same_pool s t \<Longrightarrow> same_pool s (t\<lparr>queue := x5\<rparr>)"
  by (cases e; simp add: same_pool_def created_for_other)+

lemma same_procs_prims:
  "same_procs s t \<Longrightarrow> same_procs s (emit e t)"
  "same_procs s t \<Longrightarrow> same_procs s (enqueue ks t)"
  "same_procs s t \<Longrightarrow> same_procs s (upd_worker w f t)"
  "same_procs s t \<Longrightarrow> (\<And>x. cc_configuration (g x) = cc_configuration x) \<Longrightarrow>
     (\<And>x. cts_cancelled (g x) = cts_cancelled x) \<Longrightarrow> same_procs s (upd_call c g t)"
  "same_procs s t \<Longrightarrow> same_procs s (upd_send i h t)"
  "same_procs s t \<Longrightarrow> same_procs s (t\<lparr>sends := x1\<rparr>)"
  "same_procs s t \<Longrightarrow> same_procs s (t\<lparr>webworkers := x2\<rparr>)"
  "same_procs s t \<Longrightarrow> same_procs s (t\<lparr>ports := x3\<rparr>)"
  "same_procs s t \<Longrightarrow> same_procs s (t\<lparr>workers := x4\<rparr>)"
  "same_procs s t \<Longrightarrow> same_procs s (t\<lparr>queue := x5\<rparr>)"
  by (simp_all add: same_procs_def map_update_same)

lemma same_posts_prims:
  "same_posts s t \<Longrightarrow> \<forall>i w m p. e \<noteq> EvPost i w m p \<Longrightarrow> same_posts s (emit e t)"
  "same_posts s t \<Longrightarrow> same_posts s (enqueue ks t)"
  "same_posts s t \<Longrightarrow> same_posts s (upd_worker w f t)"
  "same_posts s t \<Longrightarrow> same_posts s (upd_call c g t)"
  "same_posts s t \<Longrightarrow> same_posts s (upd_send i h t)"
  "same_posts s t \<Longrightarrow> same_posts s (t\<lparr>sends := x1\<rparr>)"
  "same_posts s t \<Longrightarrow> same_posts s (t\<lparr>calls := x2\<rparr>)"
  "same_posts s t \<Longrightarrow> same_posts s (t\<lparr>ports := x3\<rparr>)"
  "same_posts s t \<Longrightarrow> same_posts s (t\<lparr>processes := x4\<rparr>)"
  "same_posts s t \<Longrightarrow> same_posts s (t\<lparr>queue := x5\<rparr>)"
  "same_posts s t \<Longrightarrow> same_posts s (t\<lparr>webworkers := x6\<rparr>)"
  "same_posts s t \<Longrightarrow> same_posts s (t\<lparr>workers := x7\<rparr>)"
  by (cases e; simp add: same_posts_def)+

lemmas same_prims = same_pool_prims same_procs_prims same_posts_prims

lemma same_promises:
  "same_pool s t \<Longrightarrow> same_pool s (await_workerReady w k t)"
  "same_procs s t \<Longrightarrow> same_procs s (await_workerReady w k t)"
  "same_posts s t \<Longrightarrow> same_posts s (await_workerReady w k t)"
  "same_pool s t \<Longrightarrow> same_pool s (readyResolve w t)"
  "same_procs s t \<Longrightarrow> same_procs s (readyResolve w t)"
  "same_posts s t \<Longrightarrow> same_posts s (readyResolve w t)"
  "same_pool s t \<Longrightarrow> same_pool s (await_init w c t)"
  "same_procs s t \<Longrightarrow> same_procs s (await_init w c t)"
  "same_posts s t \<Longrightarrow> same_posts s (await_init w c t)"
  "same_pool s t \<Longrightarrow> same_pool s (resolve_init w t)"
  "same_procs s t \<Longrightarrow> same_procs s (resolve_init w t)"
  "same_posts s t \<Longrightarrow> same_posts s (resolve_init w t)"
  "same_pool s t \<Longrightarrow> same_pool s (await_send i c t)"
  "same_procs s t \<Longrightarrow> same_procs s (await_send i c t)"
  "same_posts s t \<Longrightarrow> same_posts s (await_send i c t)"
  "same_pool s t \<Longrightarrow> same_pool s (resolve_send i t)"
  "same_procs s t \<Longrightarrow> same_procs s (resolve_send i t)"
  "same_posts s t \<Longrightarrow> same_posts s (resolve_send i t)"
  "same_pool s t \<Longrightarrow> same_pool s (close_port p t)"
  "same_procs s t \<Longrightarrow> same_procs s (close_port p t)"
  "same_posts s t \<Longrightarrow> same_posts s (close_port p t)"
  by (simp_all add: await_workerReady_def readyResolve_def await_init_def resolve_init_def
      await_send_def resolve_send_def close_port_def same_prims split: option.splits)

lemma same_send:
  "same_pool s t \<Longrightarrow> same_pool s (snd (send w m tk p t))"
  "same_procs s t \<Longrightarrow> same_procs s (snd (send w m tk p t))"
  "same_posts s t \<Longrightarrow> same_posts s (snd (send w m tk p t))"
  "same_pool s t \<Longrightarrow> same_pool s (snd (spawn w cfg p' tk t))"
  "same_procs s t \<Longrightarrow> same_procs s (snd (spawn w cfg p' tk t))"
  "same_posts s t \<Longrightarrow> same_posts s (snd (spawn w cfg p' tk t))"
  "same_pool s t \<Longrightarrow> same_pool s (snd (terminate w cfg tk t))"
  "same_procs s t \<Longrightarrow> same_procs s (snd (terminate w cfg tk t))"
  "same_posts s t \<Longrightarrow> same_posts s (snd (terminate w cfg tk t))"
  by (simp_all add: spawn_def terminate_def send_def Let_def same_prims same_promises)

lemma same_handlers:
  "same_pool s t \<Longrightarrow> same_pool s (onmessage w ev t)"
  "same_procs s t \<Longrightarrow> same_procs s (onmessage w ev t)"
  "same_posts s t \<Longrightarrow> same_posts s (onmessage w ev t)"
  "same_pool s t \<Longrightarrow> same_pool s (onerror w msg t)"
  "same_procs s t \<Longrightarrow> same_procs s (onerror w msg t)"
  "same_posts s t \<Longrightarrow> same_posts s (onerror w msg t)"
  "same_pool s t \<Longrightarrow> same_pool s (onmessageerror w t)"
  "same_procs s t \<Longrightarrow> same_procs s (onmessageerror w t)"
  "same_posts s t \<Longrightarrow> same_posts s (onmessageerror w t)"
  by (simp_all add: onmessage_def onerror_def onmessageerror_def Let_def same_prims same_promises
      split: message_id.splits option.splits)

lemma same_continuations:
  "same_pool s t \<Longrightarrow> same_pool s (run_continuation k u t)"
  "same_procs s t \<Longrightarrow> same_procs s (run_continuation k u t)"
  "\<forall>i. k \<noteq> SendAfterReady i \<Longrightarrow> same_posts s t \<Longrightarrow> same_posts s (run_continuation k u t)"
  by (cases k; simp add: createWorker_afterWorker_def createWorker_afterSpawn_def send_continue_def
      init_continue_def Let_def case_prod_beta same_prims same_promises same_send)+

lemma same_dispose:
  "same_pool s t \<Longrightarrow> same_pool s (dispose_closure h c t)"
  "same_posts s t \<Longrightarrow> same_posts s (dispose_closure h c t)"
  "same_pool s t \<Longrightarrow> same_pool s (disposeWorker h cfg t)"
  "same_posts s t \<Longrightarrow> same_posts s (disposeWorker h cfg t)"
  by (simp_all add: disposeWorker_def dispose_closure_def Let_def same_prims same_promises same_send
      split: option.splits)

lemma same_posts_create:
  "same_posts s t \<Longrightarrow> same_posts s (snd (getOrCreateWebWorker cfg t))"
  "same_posts s t \<Longrightarrow> same_posts s (createWorker h cfg t)"
  by (simp_all add: createWorker_def getOrCreateWebWorker_def new_SharedProcessWebWorker_def init_def
      Let_def case_prod_beta same_prims same_promises same_dispose split: option.splits)

lemma same_procs_getOrCreate:
  "same_procs s t \<Longrightarrow> same_procs s (snd (getOrCreateWebWorker cfg t))"
  by (simp_all add: getOrCreateWebWorker_def new_SharedProcessWebWorker_def init_def
      Let_def case_prod_beta same_prims same_promises split: option.splits)

subsection \<open>The worker pool and the process registry\<close>

lemma pool_inv_same: "pool_inv s \<Longrightarrow> same_pool s t \<Longrightarrow> pool_inv t"
  by (simp add: pool_inv_def same_pool_def)

lemma same_procs_nth:
  assumes "same_procs s t"
  shows "length (calls t) = length (calls s)"
    and "c < length (calls s) \<Longrightarrow> cc_configuration (calls t ! c) = cc_configuration (calls s ! c)"
    and "c < length (calls s) \<Longrightarrow> cts_cancelled (calls t ! c) = cts_cancelled (calls s ! c)"
    and "processes t = processes s"
proof -
  show l: "length (calls t) = length (calls s)"
    using assms unfolding same_procs_def by (metis length_map)
  show "cc_configuration (calls t ! c) = cc_configuration (calls s ! c)" if "c < length (calls s)"
    using assms that l unfolding same_procs_def by (metis nth_map)
  show "cts_cancelled (calls t ! c) = cts_cancelled (calls s ! c)" if "c < length (calls s)"
    using assms that l unfolding same_procs_def by (metis nth_map)
  show "processes t = processes s" using assms by (simp add: same_procs_def)
qed

lemma proc_inv_same:
  assumes "proc_inv h s" "same_procs s t" shows "proc_inv h t"
  using assms(1) unfolding proc_inv_def
    same_procs_nth(1)[OF assms(2)] same_procs_nth(4)[OF assms(2)]
  by (simp add: same_procs_nth(2)[OF assms(2)] same_procs_nth(3)[OF assms(2)])

lemma getOrCreate_hit:
  "workers t (process_moduleId cfg) = Some w \<Longrightarrow> getOrCreateWebWorker cfg t = (w, t)"
  by (simp add: getOrCreateWebWorker_def)

lemma getOrCreate_miss:
  assumes "workers t (process_moduleId cfg) = None"
  shows "fst (getOrCreateWebWorker cfg t) = length (webworkers t)"
    and "workers (snd (getOrCreateWebWorker cfg t)) = (workers t)(process_moduleId cfg \<mapsto> length (webworkers t))"
    and "length (webworkers (snd (getOrCreateWebWorker cfg t))) = Suc (length (webworkers t))"
    and "new_workers (trace (snd (getOrCreateWebWorker cfg t))) = new_workers (trace t) @ [length (webworkers t)]"
    and "created_for (trace (snd (getOrCreateWebWorker cfg t))) = created_for (trace t) @ [process_moduleId cfg]"
  using assms
  by (simp_all add: getOrCreateWebWorker_def new_SharedProcessWebWorker_def init_def Let_def)

lemma pool_inv_getOrCreate:
  assumes "pool_inv t" shows "pool_inv (snd (getOrCreateWebWorker cfg t))"
proof (cases "workers t (process_moduleId cfg)")
  case (Some w)
  then show ?thesis using assms by (simp add: getOrCreate_hit)
next
  case None
  note m = getOrCreate_miss[OF None]
  have a: "\<forall>k w. workers t k = Some w \<longrightarrow> w < length (webworkers t)"
    and b: "\<forall>w<length (webworkers t). \<exists>k. workers t k = Some w"
    and c: "\<forall>k k' w. workers t k = Some w \<longrightarrow> workers t k' = Some w \<longrightarrow> k = k'"
    and d: "new_workers (trace t) = [0..<length (webworkers t)]"
    and e: "map (workers t) (created_for (trace t)) = map Some [0..<length (webworkers t)]"
    using assms unfolding pool_inv_def by blast+
  let ?m = "(workers t)(process_moduleId cfg \<mapsto> length (webworkers t))"
  have a': "w < Suc (length (webworkers t))" if "?m k = Some w" for k w
  proof (cases "k = process_moduleId cfg")
    case True
    then show ?thesis using that by simp
  next
    case False
    then have "workers t k = Some w" using that by simp
    then show ?thesis using a by (simp add: less_Suc_eq)
  qed
  have b': "\<exists>k. ?m k = Some w" if lt: "w < Suc (length (webworkers t))" for w
  proof (cases "w = length (webworkers t)")
    case True
    then show ?thesis by (intro exI[of _ "process_moduleId cfg"]) simp
  next
    case False
    then obtain k where k: "workers t k = Some w" using b lt by (auto simp add: less_Suc_eq)
    then have "k \<noteq> process_moduleId cfg" using None by auto
    then show ?thesis using k by (intro exI[of _ k]) simp
  qed
  have c': "k = k'" if "?m k = Some w" "?m k' = Some w" for k k' w
  proof (cases "w = length (webworkers t)")
    case True
    have "k = process_moduleId cfg" using that(1) True a by (cases "k = process_moduleId cfg") auto
    moreover have "k' = process_moduleId cfg" using that(2) True a by (cases "k' = process_moduleId cfg") auto
    ultimately show ?thesis by simp
  next
    case False
    have "workers t k = Some w" using that(1) False by (cases "k = process_moduleId cfg") auto
    moreover have "workers t k' = Some w" using that(2) False by (cases "k' = process_moduleId cfg") auto
    ultimately show ?thesis using c by blast
  qed
  let ?t = "snd (getOrCreateWebWorker cfg t)"
  have A: "\<forall>k w. workers ?t k = Some w \<longrightarrow> w < length (webworkers ?t)"
    unfolding m(2,3) using a' by (intro allI impI)
  have B: "\<forall>w<length (webworkers ?t). \<exists>k. workers ?t k = Some w"
    unfolding m(2,3) using b' by (intro allI impI)
  have C: "\<forall>k k' w. workers ?t k = Some w \<longrightarrow> workers ?t k' = Some w \<longrightarrow> k = k'"
    unfolding m(2) using c' by (intro allI impI)
  have D: "new_workers (trace ?t) = [0..<length (webworkers ?t)]"
    unfolding m(3,4) d by simp
  have old: "?m k = workers t k" if "k \<in> set (created_for (trace t))" for k
  proof -
    have "workers t k \<in> set (map (workers t) (created_for (trace t)))" using that by simp
    then have "workers t k \<noteq> None" unfolding e by auto
    then have "k \<noteq> process_moduleId cfg" using None by auto
    then show ?thesis by simp
  qed
  have "map ?m (created_for (trace t)) = map (workers t) (created_for (trace t))"
    using old by (intro map_cong) simp_all
  then have E: "map (workers ?t) (created_for (trace ?t)) = map Some [0..<length (webworkers ?t)]"
    unfolding m(2,3,5) using e by simp
  show ?thesis
    using A B C D E by (simp only: pool_inv_def simp_thms)
qed

lemma pool_inv_createWorker: "pool_inv t \<Longrightarrow> pool_inv (createWorker h cfg t)"
  unfolding createWorker_def Let_def case_prod_beta
  apply (rule pool_inv_same[OF _ same_promises(7)[OF same_pool_refl]])
  apply (rule pool_inv_getOrCreate)
  apply (erule pool_inv_same)
  apply (intro same_prims same_dispose same_pool_refl)
   apply simp_all
  done

lemma pool_inv_step: "pool_inv t \<Longrightarrow> pool_inv (step h a t)"
  unfolding step_def
  apply (cases a; simp add: pool_inv_createWorker split: list.splits)
     apply (erule pool_inv_same, intro same_dispose same_pool_refl)
    apply (intro allI impI, erule pool_inv_same, intro same_continuations same_prims same_pool_refl)
   apply (intro allI impI, erule pool_inv_same, intro same_handlers same_pool_refl)+
  done

lemma pool_inv_run: "pool_inv t \<Longrightarrow> pool_inv (run h acts t)"
  by (induction acts arbitrary: t) (simp_all add: pool_inv_step)

lemma pool_inv_init_state: "pool_inv init_state"
  by (simp add: pool_inv_def init_state_def)

lemma map_update_nth: "(map f xs)[i := f (xs ! i)] = map f xs"
  by (metis list_update_id map_update)

lemma dispose_closure_procs:
  "processes (dispose_closure h c t) = (processes t)(h (cc_configuration (calls t ! c)) := None)"
  "map cc_configuration (calls (dispose_closure h c t)) = map cc_configuration (calls t)"
  "map cts_cancelled (calls (dispose_closure h c t)) = (map cts_cancelled (calls t))[c := True]"
  by (simp_all add: dispose_closure_def terminate_def Let_def map_update map_update_nth split: option.splits)

lemma disposeWorker_procs:
  "map cc_configuration (calls (disposeWorker h cfg t)) = map cc_configuration (calls t)"
  "processes t (h cfg) = None \<Longrightarrow> disposeWorker h cfg t = t"
  "processes t (h cfg) = Some c \<Longrightarrow>
     processes (disposeWorker h cfg t) = (processes t)(h (cc_configuration (calls t ! c)) := None) \<and>
     map cts_cancelled (calls (disposeWorker h cfg t)) = (map cts_cancelled (calls t))[c := True]"
  by (simp_all add: disposeWorker_def dispose_closure_procs split: option.splits)

lemma map_eq_nth: "map f xs = map f ys \<Longrightarrow> i < length ys \<Longrightarrow> f (xs ! i) = f (ys ! i)"
  by (metis length_map nth_map)

lemma map_eq_length: "map f xs = map g ys \<Longrightarrow> length xs = length ys"
  by (metis length_map)

lemma proc_inv_disposeWorker:
  assumes "proc_inv h t"
  shows "proc_inv h (disposeWorker h cfg t) \<and> processes (disposeWorker h cfg t) (h cfg) = None"
proof (cases "processes t (h cfg)")
  case None
  then show ?thesis using assms by (simp add: disposeWorker_procs)
next
  case (Some c)
  let ?t = "disposeWorker h cfg t"
  have c: "c < length (calls t)" "h (cc_configuration (calls t ! c)) = h cfg"
    using assms Some by (auto simp add: proc_inv_def)
  note d = disposeWorker_procs(3)[of t h cfg c, OF Some, unfolded c(2)] disposeWorker_procs(1)[of h cfg t]
  have len: "length (calls ?t) = length (calls t)" using d(2) by (rule map_eq_length)
  have cfg: "cc_configuration (calls ?t ! i) = cc_configuration (calls t ! i)" if "i < length (calls t)" for i
    using d(2) that by (rule map_eq_nth)
  have canc: "cts_cancelled (calls ?t ! i) = (if i = c then True else cts_cancelled (calls t ! i))"
    if "i < length (calls t)" for i
    using map_eq_nth[of cts_cancelled "calls ?t" "(calls t)[c := (calls t ! c)\<lparr>cts_cancelled := True\<rparr>]" i]
      d(1) that by (simp add: map_update nth_upd_cases)
  have p: "processes ?t = (processes t)(h cfg := None)" using d(1) by simp
  have i1: "\<And>h' c'. processes t h' = Some c' \<Longrightarrow> c' < length (calls t) \<and> h (cc_configuration (calls t ! c')) = h'"
    and i2: "\<And>c'. c' < length (calls t) \<Longrightarrow> \<not> cts_cancelled (calls t ! c') \<Longrightarrow>
          processes t (h (cc_configuration (calls t ! c'))) = Some c'"
    using assms unfolding proc_inv_def by blast+
  have a: "c' < length (calls ?t) \<and> h (cc_configuration (calls ?t ! c')) = h'"
    if "processes ?t h' = Some c'" for h' c'
  proof -
    have "processes t h' = Some c'" using that p by (auto split: if_splits)
    then show ?thesis using i1 len cfg by simp
  qed
  have b: "processes ?t (h (cc_configuration (calls ?t ! c'))) = Some c'"
    if lt: "c' < length (calls ?t)" and nc: "\<not> cts_cancelled (calls ?t ! c')" for c'
  proof -
    have lt': "c' < length (calls t)" using lt len by simp
    have ne: "c' \<noteq> c" and nc': "\<not> cts_cancelled (calls t ! c')"
      using nc canc[OF lt'] by (auto split: if_splits)
    have r: "processes t (h (cc_configuration (calls t ! c'))) = Some c'" using i2 lt' nc' by simp
    have "h (cc_configuration (calls t ! c')) \<noteq> h cfg" using r Some ne by auto
    then show ?thesis using r p cfg[OF lt'] by simp
  qed
  show ?thesis unfolding proc_inv_def using a b p by simp
qed

lemma proc_inv_createWorker:
  assumes "proc_inv h t" shows "proc_inv h (createWorker h cfg t)"
proof -
  let ?s2 = "disposeWorker h cfg (emit (EvLog LogTrace (CreateWorkerLog cfg)) t)"
  let ?c = "length (calls ?s2)"
  let ?s3 = "?s2\<lparr>calls := calls ?s2 @ [\<lparr>cc_configuration = cfg, cts_cancelled = False,
                    worker = None, windowPort = None, workerPort = None, returned = False\<rparr>]\<rparr>"
  let ?s4 = "?s3\<lparr>processes := (processes ?s3)(h cfg \<mapsto> ?c)\<rparr>"
  have 1: "proc_inv h (emit (EvLog LogTrace (CreateWorkerLog cfg)) t)"
    using assms by (rule proc_inv_same) (intro same_prims same_procs_refl)
  note 2 = proc_inv_disposeWorker[OF 1, of cfg]
  have i1: "\<And>h' c'. processes ?s2 h' = Some c' \<Longrightarrow> c' < ?c \<and> h (cc_configuration (calls ?s2 ! c')) = h'"
    and i2: "\<And>c'. c' < ?c \<Longrightarrow> \<not> cts_cancelled (calls ?s2 ! c') \<Longrightarrow>
          processes ?s2 (h (cc_configuration (calls ?s2 ! c'))) = Some c'"
    and i3: "processes ?s2 (h cfg) = None"
    using 2 unfolding proc_inv_def by blast+
  have a: "c' < length (calls ?s4) \<and> h (cc_configuration (calls ?s4 ! c')) = h'"
    if "processes ?s4 h' = Some c'" for h' c'
  proof (cases "h' = h cfg")
    case True
    then show ?thesis using that by (auto simp add: nth_append)
  next
    case False
    then have "processes ?s2 h' = Some c'" using that by simp
    then show ?thesis using i1[of h' c'] by (simp add: nth_append)
  qed
  have b: "processes ?s4 (h (cc_configuration (calls ?s4 ! c'))) = Some c'"
    if lt: "c' < length (calls ?s4)" and nc: "\<not> cts_cancelled (calls ?s4 ! c')" for c'
  proof (cases "c' = ?c")
    case True
    then show ?thesis by simp
  next
    case False
    then have lt': "c' < ?c" using lt by simp
    then have r: "processes ?s2 (h (cc_configuration (calls ?s2 ! c'))) = Some c'"
      using i2[of c'] nc by (simp add: nth_append)
    then have "h (cc_configuration (calls ?s2 ! c')) \<noteq> h cfg" using i3 by auto
    then show ?thesis using r lt' by (simp add: nth_append)
  qed
  have 4: "proc_inv h ?s4" unfolding proc_inv_def using a b by blast
  show ?thesis
    unfolding createWorker_def Let_def case_prod_beta
    by (rule proc_inv_same[OF 4]) (intro same_promises same_procs_getOrCreate same_procs_refl)
qed

lemma proc_inv_step: "proc_inv h t \<Longrightarrow> proc_inv h (step h a t)"
  unfolding step_def
  apply (cases a; simp add: proc_inv_createWorker proc_inv_disposeWorker split: list.splits)
    apply (intro allI impI, erule proc_inv_same, intro same_continuations same_prims same_procs_refl)
   apply (intro allI impI, erule proc_inv_same, intro same_handlers same_procs_refl)+
  done

lemma proc_inv_run: "proc_inv h t \<Longrightarrow> proc_inv h (run h acts t)"
  by (induction acts arbitrary: t) (simp_all add: proc_inv_step)

lemma proc_inv_init_state: "proc_inv h init_state"
  by (simp add: proc_inv_def init_state_def)

subsection \<open>Unfolding the model on the example runs\<close>

lemmas op_defs = await_workerReady_def readyResolve_def await_init_def resolve_init_def
  await_send_def resolve_send_def isCancellationRequested_def truthy_def send_def send_continue_def
  spawn_def terminate_def new_SharedProcessWebWorker_def init_def init_continue_def onmessage_def
  onerror_def onmessageerror_def close_port_def dispose_closure_def disposeWorker_def
  getOrCreateWebWorker_def createWorker_def createWorker_afterWorker_def createWorker_afterSpawn_def
  step_def init_state_def
lemmas ex_defs = example_cfg_def example_cfg2_def ready_message_def ack_message_def

subsection \<open>What the synchronous part of \<open>createWorker\<close> leaves behind\<close>

lemma getOrCreate_frame:
  "calls (snd (getOrCreateWebWorker cfg t)) = calls t"
  "processes (snd (getOrCreateWebWorker cfg t)) = processes t"
  "workers (snd (getOrCreateWebWorker cfg t)) (process_moduleId cfg) = Some (fst (getOrCreateWebWorker cfg t))"
  by (simp_all add: getOrCreateWebWorker_def new_SharedProcessWebWorker_def init_def Let_def
      split: option.splits)

lemma await_init_frame:
  "calls (await_init w c t) = calls t" "processes (await_init w c t) = processes t"
  "workers (await_init w c t) = workers t"
  by (simp_all add: await_init_def)

lemma await_init_pending:
  "w < length (webworkers t) \<Longrightarrow>
   CreateAfterWorker c w \<in> set (queue (await_init w c t)) \<or>
   c \<in> set (initWaiters (webworkers (await_init w c t) ! w))"
  by (simp add: await_init_def)

lemma disposeWorker_length: "length (calls (disposeWorker h cfg t)) = length (calls t)"
  using disposeWorker_procs(1)[of h cfg t] by (rule map_eq_length)

lemma createWorker_calls:
  "calls (createWorker h cfg t) =
     calls (disposeWorker h cfg (emit (EvLog LogTrace (CreateWorkerLog cfg)) t)) @
       [\<lparr>cc_configuration = cfg, cts_cancelled = False, worker = None, windowPort = None,
         workerPort = None, returned = False\<rparr>]"
  "processes (createWorker h cfg t) (h cfg) = Some (length (calls t))"
  by (simp_all add: createWorker_def Let_def case_prod_beta await_init_frame getOrCreate_frame
      disposeWorker_length)

lemma createWorker_pending:
  assumes "wellformed t"
  shows "\<exists>w. workers (createWorker h cfg t) (process_moduleId cfg) = Some w \<and>
     (CreateAfterWorker (length (calls t)) w \<in> set (queue (createWorker h cfg t)) \<or>
      length (calls t) \<in> set (initWaiters (webworkers (createWorker h cfg t) ! w)))"
proof -
  let ?s2 = "disposeWorker h cfg (emit (EvLog LogTrace (CreateWorkerLog cfg)) t)"
  let ?c = "length (calls ?s2)"
  let ?s3 = "?s2\<lparr>calls := calls ?s2 @ [\<lparr>cc_configuration = cfg, cts_cancelled = False,
                    worker = None, windowPort = None, workerPort = None, returned = False\<rparr>]\<rparr>"
  let ?s4 = "?s3\<lparr>processes := (processes ?s3)(h cfg \<mapsto> ?c)\<rparr>"
  let ?w = "fst (getOrCreateWebWorker cfg ?s4)"
  let ?s5 = "snd (getOrCreateWebWorker cfg ?s4)"
  have 2: "wellformed ?s2" using assms by (intro wf_disposeWorker wf_emit) auto
  have 3: "wellformed ?s3" using 2 by (intro wf_app_call) auto
  have 4: "wellformed ?s4" using 3 2 by (intro wf_processes) (auto simp add: wellformed_def less_Suc_eq)
  note g = wf_getOrCreateWebWorker[OF 4, of cfg]
  have e: "createWorker h cfg t = await_init ?w ?c ?s5"
    by (simp add: createWorker_def Let_def case_prod_beta)
  have c: "?c = length (calls t)" by (simp add: disposeWorker_length)
  have "workers (await_init ?w ?c ?s5) (process_moduleId cfg) = Some ?w"
    by (simp only: await_init_frame getOrCreate_frame)
  moreover have "CreateAfterWorker ?c ?w \<in> set (queue (await_init ?w ?c ?s5)) \<or>
      ?c \<in> set (initWaiters (webworkers (await_init ?w ?c ?s5) ! ?w))"
    using g by (intro await_init_pending) blast
  ultimately show ?thesis unfolding e c[symmetric] by blast
qed

lemma disposeWorker_cancels:
  assumes "processes t (h cfg) = Some c" "c < length (calls t)"
  shows "cts_cancelled (calls (disposeWorker h cfg t) ! c)"
proof -
  have "map cts_cancelled (calls (disposeWorker h cfg t)) ! c = (map cts_cancelled (calls t))[c := True] ! c"
    using disposeWorker_procs(3)[of t h cfg c, OF assms(1)] by simp
  then show ?thesis using assms(2) by (simp add: disposeWorker_length)
qed

lemmas st_defs = state_spawn_queued_then_disposed_def state_spawn_posted_def state_disposed_early_def

subsection \<open>What the dispose closure changes\<close>

lemma nth_update_field:
  "(\<And>x. f (g x) = f x) \<Longrightarrow> f (xs[i := g (xs ! i)] ! i) = f (xs ! i)"
  by (cases "i < length xs") (simp_all add: list_update_beyond)

lemma dispose_closure_workers:
  "workers (dispose_closure hsh c s) = workers s"
  "new_workers (trace (dispose_closure hsh c s)) = new_workers (trace s)"
  "map wtype (webworkers (dispose_closure hsh c s)) = map wtype (webworkers s)"
  "map workerReady (webworkers (dispose_closure hsh c s)) = map workerReady (webworkers s)"
  "map initResolved (webworkers (dispose_closure hsh c s)) = map initResolved (webworkers s)"
  "map mapMessageNonceToMessageResolve (webworkers (dispose_closure hsh c s)) =
     map mapMessageNonceToMessageResolve (webworkers s)"
  by (simp_all add: dispose_closure_def terminate_def send_def await_workerReady_def
      Let_def map_update_same split: option.splits)

lemma dispose_closure_calls:
  "calls (dispose_closure hsh c s) = (calls s)[c := (calls s ! c)\<lparr>cts_cancelled := True\<rparr>]"
  by (simp add: dispose_closure_def terminate_def Let_def split: option.splits)

lemma dispose_closure_ports:
  "ports (dispose_closure hsh c s) =
     ports (close_port (workerPort (calls s ! c)) (close_port (windowPort (calls s ! c)) s))"
proof -
  have w: "windowPort ((calls s)[c := (calls s ! c)\<lparr>cts_cancelled := True\<rparr>] ! c) = windowPort (calls s ! c)"
    by (rule nth_update_field) simp
  have k: "workerPort ((calls s)[c := (calls s ! c)\<lparr>cts_cancelled := True\<rparr>] ! c) = workerPort (calls s ! c)"
    by (rule nth_update_field) simp
  show ?thesis
    by (simp add: dispose_closure_def terminate_def Let_def w k close_port_def split: option.splits)
qed

subsection \<open>Steps of the event loop and delivery of a queued \<open>send\<close>\<close>

lemma grows_step_other:
  "\<forall>u. a \<noteq> Microtask u \<Longrightarrow> grows t (step h a t)"
  by (cases a) (simp_all add: step_def grows_refl grows_createWorker grows_disposeWorker
      grows_onmessage grows_onerror grows_onmessageerror)

lemma grows_step_microtask:
  "queue t = k # ks \<Longrightarrow> grows (t\<lparr>queue := ks\<rparr>) (step h (Microtask u) t)"
  by (simp add: step_def grows_run_continuation grows_refl)

lemma step_microtask_empty: "queue t = [] \<Longrightarrow> step h (Microtask u) t = t"
  by (simp add: step_def)

lemma trace_step: "\<exists>new. trace (step h a t) = trace t @ new"
proof (cases "\<exists>u. a = Microtask u")
  case False
  then show ?thesis using grows_step_other[of a t h] by (simp add: grows_def)
next
  case True
  then obtain u where a: "a = Microtask u" by blast
  show ?thesis
  proof (cases "queue t")
    case Nil
    then show ?thesis by (simp add: a step_microtask_empty)
  next
    case (Cons k ks)
    then show ?thesis using grows_step_microtask[OF Cons, of h u] by (simp add: grows_def a)
  qed
qed

lemma trace_run: "\<exists>new. trace (run h acts t) = trace t @ new"
proof (induction acts arbitrary: t)
  case Nil
  then show ?case by simp
next
  case (Cons a acts)
  obtain n1 where 1: "trace (step h a t) = trace t @ n1" using trace_step by blast
  obtain n2 where 2: "trace (run h acts (step h a t)) = trace (step h a t) @ n2"
    using Cons.IH by blast
  show ?case using 1 2 by simp
qed

lemma send_continue_posts:
  assumes "token (sends t ! i) = TokenNone"
  shows "trace (send_continue i u t) =
     trace t @ [EvPost i (target (sends t ! i)) ((message (sends t ! i))\<lparr>m_nonce := Some u\<rparr>)
                  (port (sends t ! i))]"
  using assms by (simp add: send_continue_def isCancellationRequested_def Let_def)

lemma send_delivery:
  assumes "queue t = pre @ SendAfterReady i # post" "i < length (sends t)"
    "token (sends t ! i) = TokenNone" "length pre < count_microtasks acts"
  shows "\<exists>u. EvPost i (target (sends t ! i)) ((message (sends t ! i))\<lparr>m_nonce := Some u\<rparr>)
                 (port (sends t ! i)) \<in> set (trace (run h acts t))"
  using assms
proof (induction acts arbitrary: t pre post)
  case Nil
  then show ?case by simp
next
  case (Cons a acts)
  show ?case
  proof (cases "\<exists>u. a = Microtask u")
    case False
    then have g: "grows t (step h a t)" by (intro grows_step_other) simp
    then obtain new where q: "queue (step h a t) = pre @ SendAfterReady i # (post @ new)"
      using Cons.prems(1) by (auto simp add: grows_def)
    have s: "i < length (sends (step h a t))" "token (sends (step h a t) ! i) = TokenNone"
      "target (sends (step h a t) ! i) = target (sends t ! i)"
      "message (sends (step h a t) ! i) = message (sends t ! i)"
      "port (sends (step h a t) ! i) = port (sends t ! i)"
      using g Cons.prems(2,3) by (auto simp add: grows_def)
    have c: "length pre < count_microtasks acts"
      using Cons.prems(4) False by (cases a) simp_all
    show ?thesis using Cons.IH[OF q s(1,2) c] by (simp add: s)
  next
    case True
    then obtain u where a: "a = Microtask u" by blast
    show ?thesis
    proof (cases pre)
      case Nil
      then have "step h a t = send_continue i u (t\<lparr>queue := post\<rparr>)"
        using Cons.prems(1) by (simp add: a step_def)
      then have "trace (step h a t) = trace t @ [EvPost i (target (sends t ! i))
            ((message (sends t ! i))\<lparr>m_nonce := Some u\<rparr>) (port (sends t ! i))]"
        using Cons.prems(3) by (simp add: send_continue_posts)
      moreover obtain new where "trace (run h acts (step h a t)) = trace (step h a t) @ new"
        using trace_run by blast
      ultimately show ?thesis by (intro exI[of _ u]) simp
    next
      case (Cons k pre')
      let ?tq = "t\<lparr>queue := pre' @ SendAfterReady i # post\<rparr>"
      have qt: "queue t = k # (pre' @ SendAfterReady i # post)" using Cons.prems(1) Cons by simp
      have g: "grows ?tq (step h a t)" unfolding a by (rule grows_step_microtask[OF qt])
      then obtain new where q: "queue (step h a t) = pre' @ SendAfterReady i # (post @ new)"
        by (auto simp add: grows_def)
      have s: "i < length (sends (step h a t))" "token (sends (step h a t) ! i) = TokenNone"
        "target (sends (step h a t) ! i) = target (sends t ! i)"
        "message (sends (step h a t) ! i) = message (sends t ! i)"
        "port (sends (step h a t) ! i) = port (sends t ! i)"
        using g Cons.prems(2,3) by (auto simp add: grows_def)
      have c: "length pre' < count_microtasks acts"
        using Cons.prems(4) Cons a by simp
      show ?thesis using Cons.IH[OF q s(1,2) c] by (simp add: s)
    qed
  qed
qed

subsection \<open>What disposal starts\<close>

lemma dispose_closure_no_worker:
  assumes "worker (calls t ! c) = None"
  shows "sends (dispose_closure h c t) = sends t" "queue (dispose_closure h c t) = queue t"
    "trace (dispose_closure h c t) = trace t" "webworkers (dispose_closure h c t) = webworkers t"
proof -
  have w: "worker ((calls t)[c := (calls t ! c)\<lparr>cts_cancelled := True\<rparr>] ! c) = worker (calls t ! c)"
    by (rule nth_update_field) simp
  show "sends (dispose_closure h c t) = sends t" "queue (dispose_closure h c t) = queue t"
    "trace (dispose_closure h c t) = trace t" "webworkers (dispose_closure h c t) = webworkers t"
    using assms by (simp_all add: dispose_closure_def Let_def w)
qed

lemma dispose_closure_with_worker:
  assumes "worker (calls t ! c) = Some w" "workerReady (webworkers t ! w)"
  shows "sends (dispose_closure h c t) = sends t @ [terminate_send w (cc_configuration (calls t ! c))]"
    "queue (dispose_closure h c t) = queue t @ [SendAfterReady (length (sends t))]"
    "trace (dispose_closure h c t) = trace t" "webworkers (dispose_closure h c t) = webworkers t"
proof -
  have w: "worker ((calls t)[c := (calls t ! c)\<lparr>cts_cancelled := True\<rparr>] ! c) = worker (calls t ! c)"
    by (rule nth_update_field) simp
  show "sends (dispose_closure h c t) = sends t @ [terminate_send w (cc_configuration (calls t ! c))]"
    "queue (dispose_closure h c t) = queue t @ [SendAfterReady (length (sends t))]"
    "trace (dispose_closure h c t) = trace t" "webworkers (dispose_closure h c t) = webworkers t"
    using assms
    by (simp_all add: dispose_closure_def Let_def w terminate_def send_def await_workerReady_def
        terminate_send_def terminate_message_def)
qed

lemma disposeWorker_no_worker:
  assumes "processes t (h cfg) = Some c" "worker (calls t ! c) = None"
  shows "sends (disposeWorker h cfg t) = sends t" "queue (disposeWorker h cfg t) = queue t"
    "posts (trace (disposeWorker h cfg t)) = posts (trace t)"
  using assms by (simp_all add: disposeWorker_def dispose_closure_no_worker)

lemma disposeWorker_with_worker:
  assumes "processes t (h cfg) = Some c" "worker (calls t ! c) = Some w" "workerReady (webworkers t ! w)"
  shows "sends (disposeWorker h cfg t) = sends t @ [terminate_send w (cc_configuration (calls t ! c))]"
    "queue (disposeWorker h cfg t) = queue t @ [SendAfterReady (length (sends t))]"
    "posts (trace (disposeWorker h cfg t)) = posts (trace t)"
  using assms by (simp_all add: disposeWorker_def dispose_closure_with_worker)

lemma getOrCreate_sends: "sends (snd (getOrCreateWebWorker cfg t)) = sends t"
  by (simp add: getOrCreateWebWorker_def new_SharedProcessWebWorker_def init_def Let_def
      split: option.splits)

lemma await_init_sends: "sends (await_init w c t) = sends t"
  by (simp add: await_init_def)

lemma createWorker_after_dispose:
  "sends (createWorker h cfg t) =
     sends (disposeWorker h cfg (emit (EvLog LogTrace (CreateWorkerLog cfg)) t))"
  "\<exists>new. queue (createWorker h cfg t) =
     queue (disposeWorker h cfg (emit (EvLog LogTrace (CreateWorkerLog cfg)) t)) @ new"
proof -
  let ?s2 = "disposeWorker h cfg (emit (EvLog LogTrace (CreateWorkerLog cfg)) t)"
  show "sends (createWorker h cfg t) = sends ?s2"
    by (simp add: createWorker_def Let_def case_prod_beta await_init_sends getOrCreate_sends)
  have "grows ?s2 (createWorker h cfg t)"
    unfolding createWorker_def Let_def case_prod_beta
    by (intro grows_await_init grows_getOrCreateWebWorker grows_processes grows_app_call grows_refl)
  then show "\<exists>new. queue (createWorker h cfg t) = queue ?s2 @ new"
    by (simp add: grows_def)
qed

lemma createWorker_no_worker:
  assumes "processes t (h cfg) = Some c" "worker (calls t ! c) = None"
  shows "sends (createWorker h cfg t) = sends t"
  using assms disposeWorker_no_worker(1)[of "emit (EvLog LogTrace (CreateWorkerLog cfg)) t" h cfg c]
  by (simp add: createWorker_after_dispose)

lemma createWorker_with_worker:
  assumes "processes t (h cfg) = Some c" "worker (calls t ! c) = Some w" "workerReady (webworkers t ! w)"
  shows "sends (createWorker h cfg t) = sends t @ [terminate_send w (cc_configuration (calls t ! c))]"
    "\<exists>new. queue (createWorker h cfg t) = queue t @ SendAfterReady (length (sends t)) # new"
    "posts (trace (createWorker h cfg t)) = posts (trace t)"
proof -
  let ?t = "emit (EvLog LogTrace (CreateWorkerLog cfg)) t"
  note d = disposeWorker_with_worker[of ?t h cfg c w]
  show "sends (createWorker h cfg t) = sends t @ [terminate_send w (cc_configuration (calls t ! c))]"
    using assms d(1) by (simp add: createWorker_after_dispose)
  show "\<exists>new. queue (createWorker h cfg t) = queue t @ SendAfterReady (length (sends t)) # new"
    using assms d(2) createWorker_after_dispose(2)[of h cfg t] by auto
  show "posts (trace (createWorker h cfg t)) = posts (trace t)"
    using same_posts_create(2)[OF same_posts_refl, of t h cfg] by (simp add: same_posts_def)
qed

subsection \<open>The order of posts\<close>

lemma no_token_prims:
  "no_token c t \<Longrightarrow> no_token c (emit e t)"
  "no_token c t \<Longrightarrow> no_token c (enqueue ks t)"
  "no_token c t \<Longrightarrow> no_token c (upd_worker w f t)"
  "no_token c t \<Longrightarrow> no_token c (upd_call c' g t)"
  "no_token c t \<Longrightarrow> (\<And>x. token (f' x) = token x) \<Longrightarrow> no_token c (upd_send i f' t)"
  "no_token c t \<Longrightarrow> token x \<noteq> CtsToken c \<Longrightarrow> no_token c (t\<lparr>sends := sends t @ [x]\<rparr>)"
  "no_token c t \<Longrightarrow> no_token c (t\<lparr>calls := x2\<rparr>)"
  "no_token c t \<Longrightarrow> no_token c (t\<lparr>ports := x3\<rparr>)"
  "no_token c t \<Longrightarrow> no_token c (t\<lparr>processes := x4\<rparr>)"
  "no_token c t \<Longrightarrow> no_token c (t\<lparr>queue := x5\<rparr>)"
  "no_token c t \<Longrightarrow> no_token c (t\<lparr>webworkers := x6\<rparr>)"
  "no_token c t \<Longrightarrow> no_token c (t\<lparr>workers := x7\<rparr>)"
  by (auto simp add: no_token_def dest!: in_set_update)

lemma no_token_promises:
  "no_token c t \<Longrightarrow> no_token c (await_workerReady w k t)"
  "no_token c t \<Longrightarrow> no_token c (readyResolve w t)"
  "no_token c t \<Longrightarrow> no_token c (await_init w c' t)"
  "no_token c t \<Longrightarrow> no_token c (resolve_init w t)"
  "no_token c t \<Longrightarrow> no_token c (await_send i c' t)"
  "no_token c t \<Longrightarrow> no_token c (resolve_send i t)"
  "no_token c t \<Longrightarrow> no_token c (close_port p t)"
  by (simp_all add: await_workerReady_def readyResolve_def await_init_def resolve_init_def
      await_send_def resolve_send_def close_port_def no_token_prims split: option.splits)

lemma no_token_send:
  "no_token c t \<Longrightarrow> tk \<noteq> CtsToken c \<Longrightarrow> no_token c (snd (send w m tk p t))"
  "no_token c t \<Longrightarrow> tk \<noteq> CtsToken c \<Longrightarrow> no_token c (snd (spawn w cfg p' tk t))"
  "no_token c t \<Longrightarrow> tk \<noteq> CtsToken c \<Longrightarrow> no_token c (snd (terminate w cfg tk t))"
  by (simp_all add: spawn_def terminate_def send_def Let_def no_token_prims no_token_promises)

lemma no_token_handlers:
  "no_token c t \<Longrightarrow> no_token c (onmessage w ev t)"
  "no_token c t \<Longrightarrow> no_token c (onerror w msg t)"
  "no_token c t \<Longrightarrow> no_token c (onmessageerror w t)"
  by (simp_all add: onmessage_def onerror_def onmessageerror_def Let_def no_token_prims
      no_token_promises split: message_id.splits option.splits)

lemma no_token_continuation:
  "\<forall>w. k \<noteq> CreateAfterWorker c w \<Longrightarrow> no_token c t \<Longrightarrow> no_token c (run_continuation k u t)"
  by (cases k; simp add: createWorker_afterWorker_def createWorker_afterSpawn_def send_continue_def
      init_continue_def Let_def case_prod_beta no_token_prims no_token_promises no_token_send)

lemma no_token_calls:
  "no_token c t \<Longrightarrow> no_token c (dispose_closure h c' t)"
  "no_token c t \<Longrightarrow> no_token c (disposeWorker h cfg t)"
  "no_token c t \<Longrightarrow> no_token c (snd (getOrCreateWebWorker cfg t))"
  "no_token c t \<Longrightarrow> no_token c (createWorker h cfg t)"
  by (simp_all add: createWorker_def getOrCreateWebWorker_def new_SharedProcessWebWorker_def init_def
      disposeWorker_def dispose_closure_def Let_def case_prod_beta no_token_prims no_token_promises
      no_token_send split: option.splits)

lemma no_token_step_other:
  "\<forall>u. a \<noteq> Microtask u \<Longrightarrow> no_token c t \<Longrightarrow> no_token c (step h a t)"
  by (cases a) (simp_all add: step_def no_token_calls no_token_handlers)

lemma posts_step_other:
  "\<forall>u. a \<noteq> Microtask u \<Longrightarrow> posts (trace (step h a t)) = posts (trace t)"
proof -
  assume "\<forall>u. a \<noteq> Microtask u"
  then have "same_posts t (step h a t)"
    by (cases a) (simp_all add: step_def same_posts_refl same_posts_create same_dispose same_handlers)
  then show ?thesis by (simp add: same_posts_def)
qed

lemma posts_send_continue:
  "posts (trace (send_continue j u t)) =
     (if isCancellationRequested t (token (sends t ! j)) then posts (trace t)
      else posts (trace t) @ [j])"
  by (simp add: send_continue_def resolve_send_def Let_def)

lemma posts_run_continuation:
  "posts (trace (run_continuation k u t)) = posts (trace t) \<or>
   (\<exists>j. k = SendAfterReady j \<and> posts (trace (run_continuation k u t)) = posts (trace t) @ [j])"
proof (cases "\<exists>j. k = SendAfterReady j")
  case True
  then show ?thesis by (auto simp add: posts_send_continue split: if_splits)
next
  case False
  then have "same_posts t (run_continuation k u t)"
    by (intro same_continuations same_posts_refl) simp
  then show ?thesis by (simp add: same_posts_def)
qed

lemma precedes_first:
  "a \<in> set xs \<Longrightarrow> b \<notin> set (takeWhile (\<lambda>x. x \<noteq> a) xs) \<Longrightarrow> a \<noteq> b \<Longrightarrow> precedes a b xs"
  unfolding precedes_def by (induction xs) (auto split: if_splits)

lemma order_inv_precedes:
  assumes "order_inv i c t" "j < length (sends t)" "token (sends t ! j) = CtsToken c"
    "j \<in> set (posts (trace t))"
  shows "precedes i j (posts (trace t))"
proof -
  have ne: "i \<noteq> j" using assms(1,3) by (auto simp add: order_inv_def)
  have "\<not> no_token c t" using assms(2,3) unfolding no_token_def by (metis nth_mem)
  then have posted: "i \<in> set (posts (trace t))" using assms(1) by (auto simp add: order_inv_def)
  have "j \<notin> set (takeWhile (\<lambda>x. x \<noteq> i) (posts (trace t)))"
    using assms(1,3) by (auto simp add: order_inv_def)
  then show ?thesis using posted ne by (intro precedes_first)
qed

lemma order_inv_step:
  assumes wf: "wellformed t" and inv: "order_inv i c t"
  shows "order_inv i c (step h a t)"
proof -
  let ?t = "step h a t"
  let ?P = "posts (trace t)" and ?P' = "posts (trace ?t)"
  have mono: "length (sends t) \<le> length (sends ?t)"
    "\<And>j. j < length (sends t) \<Longrightarrow> token (sends ?t ! j) = token (sends t ! j)"
  proof -
    have "\<exists>q. grows (t\<lparr>queue := q\<rparr>) ?t"
    proof (cases "\<exists>u. a = Microtask u")
      case False
      then have "grows (t\<lparr>queue := queue t\<rparr>) ?t" using grows_step_other[of a t h] by simp
      then show ?thesis ..
    next
      case True
      then obtain u where a: "a = Microtask u" by blast
      show ?thesis
      proof (cases "queue t")
        case Nil
        then have "grows (t\<lparr>queue := []\<rparr>) ?t" by (simp add: a step_microtask_empty grows_def)
        then show ?thesis ..
      next
        case (Cons k ks)
        then show ?thesis using grows_step_microtask[OF Cons, of h u] a by blast
      qed
    qed
    then obtain q where g: "grows (t\<lparr>queue := q\<rparr>) ?t" ..
    show "length (sends t) \<le> length (sends ?t)" using g by (simp add: grows_def)
    show "token (sends ?t ! j) = token (sends t ! j)" if "j < length (sends t)" for j
      using g that by (simp add: grows_def)
  qed
  from inv have i: "i < length (sends t)" "token (sends t ! i) = TokenNone"
    and before: "\<forall>j\<in>set (takeWhile (\<lambda>x. x \<noteq> i) ?P). j < length (sends t) \<and> token (sends t ! j) \<noteq> CtsToken c"
    and phase: "i \<in> set ?P \<or>
       ((\<exists>pre post. queue t = pre @ SendAfterReady i # post \<and>
            (\<forall>w. CreateAfterWorker c w \<notin> set pre)) \<and> no_token c t)"
    unfolding order_inv_def by blast+
  have i': "i < length (sends ?t)" "token (sends ?t ! i) = TokenNone"
    using i mono by auto
  have step_posts: "?P' = ?P \<or> (\<exists>u j ks. a = Microtask u \<and> queue t = SendAfterReady j # ks \<and> ?P' = ?P @ [j])"
  proof (cases "\<exists>u. a = Microtask u")
    case False
    then show ?thesis using posts_step_other[of a h t] by simp
  next
    case True
    then obtain u where a: "a = Microtask u" by blast
    show ?thesis
    proof (cases "queue t")
      case Nil
      then show ?thesis by (simp add: a step_microtask_empty)
    next
      case (Cons k ks)
      then have e: "?t = run_continuation k u (t\<lparr>queue := ks\<rparr>)" by (simp add: a step_def)
      show ?thesis
        using posts_run_continuation[of k u "t\<lparr>queue := ks\<rparr>"] Cons a unfolding e by auto
    qed
  qed
  show ?thesis
  proof (cases "i \<in> set ?P")
    case True
    obtain new where new: "?P' = ?P @ new" using step_posts by auto
    have tw: "takeWhile (\<lambda>x. x \<noteq> i) ?P' = takeWhile (\<lambda>x. x \<noteq> i) ?P"
      unfolding new using True by (intro takeWhile_append1[of i]) auto
    have "\<forall>j\<in>set (takeWhile (\<lambda>x. x \<noteq> i) ?P'). j < length (sends ?t) \<and> token (sends ?t ! j) \<noteq> CtsToken c"
      unfolding tw using before mono by (metis less_le_trans)
    moreover have "i \<in> set ?P'" using True new by simp
    ultimately show ?thesis unfolding order_inv_def using i' by blast
  next
    case False
    then obtain pre post where q: "queue t = pre @ SendAfterReady i # post"
      and pre: "\<forall>w. CreateAfterWorker c w \<notin> set pre" and nt: "no_token c t"
      using phase by blast
    have allP: "\<forall>j\<in>set ?P. j < length (sends t) \<and> token (sends t ! j) \<noteq> CtsToken c"
    proof -
      have tw0: "takeWhile (\<lambda>x. x \<noteq> i) ?P = ?P"
        using False by (intro takeWhile_eq_all_conv[THEN iffD2]) auto
      show ?thesis using before unfolding tw0 .
    qed
    have old: "j < length (sends ?t) \<and> token (sends ?t ! j) \<noteq> CtsToken c"
      if "j < length (sends t)" "token (sends t ! j) \<noteq> CtsToken c" for j
      using that mono by (metis less_le_trans)
    show ?thesis
    proof (cases "\<exists>u. a = Microtask u")
      case nm: False
      have P: "?P' = ?P" using posts_step_other[of a h t] nm by simp
      have g: "grows t ?t" using nm by (intro grows_step_other) simp
      then obtain new where "queue ?t = pre @ SendAfterReady i # (post @ new)"
        using q by (auto simp add: grows_def)
      moreover have "no_token c ?t" using nm nt by (intro no_token_step_other) simp_all
      moreover have "\<forall>j\<in>set (takeWhile (\<lambda>x. x \<noteq> i) ?P'). j < length (sends ?t) \<and> token (sends ?t ! j) \<noteq> CtsToken c"
        unfolding P using before old by blast
      ultimately show ?thesis unfolding order_inv_def using i' pre by blast
    next
      case True
      then obtain u where a: "a = Microtask u" by blast
      show ?thesis
      proof (cases pre)
        case Nil
        then have e: "?t = send_continue i u (t\<lparr>queue := post\<rparr>)" using q by (simp add: a step_def)
        have P: "?P' = ?P @ [i]"
          unfolding e using i by (simp add: posts_send_continue isCancellationRequested_def)
        have tw: "takeWhile (\<lambda>x. x \<noteq> i) ?P' = ?P"
          unfolding P using False by (subst takeWhile_append2) auto
        have "\<forall>j\<in>set (takeWhile (\<lambda>x. x \<noteq> i) ?P'). j < length (sends ?t) \<and> token (sends ?t ! j) \<noteq> CtsToken c"
          unfolding tw using allP old by blast
        moreover have "i \<in> set ?P'" using P by simp
        ultimately show ?thesis unfolding order_inv_def using i' by blast
      next
        case (Cons k pre')
        let ?tq = "t\<lparr>queue := pre' @ SendAfterReady i # post\<rparr>"
        have qt: "queue t = k # (pre' @ SendAfterReady i # post)" using q Cons by simp
        have e: "?t = run_continuation k u ?tq" using qt by (simp add: a step_def)
        have k: "\<forall>w. k \<noteq> CreateAfterWorker c w" using pre Cons by auto
        have g: "grows ?tq ?t" unfolding a by (rule grows_step_microtask[OF qt])
        then obtain new where q': "queue ?t = pre' @ SendAfterReady i # (post @ new)"
          by (auto simp add: grows_def)
        have pre': "\<forall>w. CreateAfterWorker c w \<notin> set pre'" using pre Cons by auto
        have nt': "no_token c ?t"
          unfolding e using k nt by (intro no_token_continuation no_token_prims)
        have kok: "cont_ok t k" using wf qt by (simp add: wellformed_def)
        have "\<forall>j\<in>set ?P'. j < length (sends ?t) \<and> token (sends ?t ! j) \<noteq> CtsToken c"
        proof -
          from step_posts consider "?P' = ?P" | j where "k = SendAfterReady j" "?P' = ?P @ [j]"
            using qt by auto
          then show ?thesis
          proof cases
            case 1
            then show ?thesis using allP old by simp
          next
            case 2
            have "j < length (sends t)" using kok 2(1) by simp
            moreover have "token (sends t ! j) \<noteq> CtsToken c"
              using nt calculation unfolding no_token_def by (metis nth_mem)
            ultimately show ?thesis unfolding 2(2) using allP old by auto
          qed
        qed
        then have "\<forall>j\<in>set (takeWhile (\<lambda>x. x \<noteq> i) ?P'). j < length (sends ?t) \<and> token (sends ?t ! j) \<noteq> CtsToken c"
          by (meson set_takeWhileD)
        then show ?thesis unfolding order_inv_def using i' q' pre' nt' by blast
      qed
    qed
  qed
qed

lemma order_inv_run:
  "wellformed t \<Longrightarrow> order_inv i c t \<Longrightarrow> order_inv i c (run h acts t)"
  by (induction acts arbitrary: t) (simp_all add: order_inv_step wf_step)

lemmas st2_defs = state_disposed_early_drained_def state_replaced_early_drained_def
  state_worker_acquired_def state_disposed_early_def

subsection \<open>Reachable states\<close>

lemma reachable_wellformed: "wellformed (run h acts init_state)"
  by (rule wf_run[OF wf_init_state])

lemma reachable_proc_inv: "proc_inv h (run h acts init_state)"
  by (rule proc_inv_run[OF proc_inv_init_state])

lemma wf_registered:
  assumes "wellformed s" "processes s k = Some c"
  shows "c < length (calls s)"
    and "worker (calls s ! c) = Some w \<Longrightarrow> w < length (webworkers s) \<and> workerReady (webworkers s ! w)"
proof -
  show c: "c < length (calls s)" using assms by (simp add: wellformed_def)
  show "w < length (webworkers s) \<and> workerReady (webworkers s ! w)" if "worker (calls s ! c) = Some w"
    using wf_call_okD[OF assms(1) c] that by (simp add: call_ok_def)
qed

lemma createWorker_cancels:
  assumes "processes t (h cfg) = Some c" "c < length (calls t)"
  shows "cts_cancelled (calls (createWorker h cfg t) ! c)" "c < length (calls (createWorker h cfg t))"
proof -
  let ?t = "emit (EvLog LogTrace (CreateWorkerLog cfg)) t"
  have "cts_cancelled (calls (disposeWorker h cfg ?t) ! c)"
    using assms by (intro disposeWorker_cancels) simp_all
  moreover have "c < length (calls (disposeWorker h cfg ?t))"
    using assms(2) by (simp add: disposeWorker_length)
  ultimately show "cts_cancelled (calls (createWorker h cfg t) ! c)"
    "c < length (calls (createWorker h cfg t))"
    by (simp_all add: createWorker_calls nth_append)
qed

lemma terminate_send_fields [simp]:
  "target (terminate_send w cfg) = w" "message (terminate_send w cfg) = terminate_message cfg"
  "token (terminate_send w cfg) = TokenNone" "port (terminate_send w cfg) = None"
  by (simp_all add: terminate_send_def)

lemma run_append: "run h (xs @ ys) t = run h ys (run h xs t)"
  by (induction xs arbitrary: t) simp_all

lemma proc_inv_registered:
  "proc_inv h t \<Longrightarrow> a < length (calls t) \<Longrightarrow> \<not> cts_cancelled (calls t ! a) \<Longrightarrow>
   processes t (h (cc_configuration (calls t ! a))) = Some a"
  by (simp add: proc_inv_def)

lemma proc_inv_unique:
  assumes "proc_inv h t" "a < length (calls t)" "b < length (calls t)"
    "\<not> cts_cancelled (calls t ! a)" "\<not> cts_cancelled (calls t ! b)"
    "h (cc_configuration (calls t ! a)) = h (cc_configuration (calls t ! b))"
  shows "a = b"
proof -
  have "processes t (h (cc_configuration (calls t ! b))) = Some a"
    using proc_inv_registered[OF assms(1,2,4)] unfolding assms(6) .
  moreover have "processes t (h (cc_configuration (calls t ! b))) = Some b"
    by (rule proc_inv_registered[OF assms(1,3,5)])
  ultimately have "Some a = Some b" by (rule trans[OF sym])
  then show ?thesis by (rule option.inject[THEN iffD1])
qed

lemma order_inv_createWorker:
  assumes wf: "wellformed s" and reg: "processes s (h cfg) = Some c1"
    and w: "worker (calls s ! c1) = Some w"
  shows "order_inv (length (sends s)) (length (calls s)) (createWorker h cfg s)"
proof -
  let ?s1 = "createWorker h cfg s" and ?i = "length (sends s)" and ?c2 = "length (calls s)"
  let ?x = "terminate_send w (cc_configuration (calls s ! c1))"
  have rdy: "workerReady (webworkers s ! w)" using wf_registered(2)[OF wf reg w] by simp
  have a: "sends ?s1 = sends s @ [?x]"
    by (rule createWorker_with_worker(1)[where t=s and h=h and cfg=cfg, OF reg w rdy])
  obtain new where q: "queue ?s1 = queue s @ SendAfterReady ?i # new"
    using createWorker_with_worker(2)[where t=s and h=h and cfg=cfg, OF reg w rdy] by blast
  have p: "posts (trace ?s1) = posts (trace s)"
    by (rule createWorker_with_worker(3)[where t=s and h=h and cfg=cfg, OF reg w rdy])
  have tok: "token x \<noteq> CtsToken ?c2" if "x \<in> set (sends s)" for x
  proof -
    have "token_ok s (token x)" using wf that by (simp add: wellformed_def)
    then show ?thesis by (cases "token x") auto
  qed
  have 1: "?i < length (sends ?s1)" "token (sends ?s1 ! ?i) = TokenNone" by (simp_all add: a)
  have 2: "j < length (sends ?s1) \<and> token (sends ?s1 ! j) \<noteq> CtsToken ?c2"
    if "j \<in> set (posts (trace s))" for j
  proof -
    have j: "j < length (sends s)" using wf that by (simp add: wellformed_def)
    then show ?thesis using tok[of "sends s ! j"] by (simp add: a nth_append)
  qed
  have 3: "\<forall>w. CreateAfterWorker ?c2 w \<notin> set (queue s)"
  proof (intro allI notI)
    fix w' assume "CreateAfterWorker ?c2 w' \<in> set (queue s)"
    then have "cont_ok s (CreateAfterWorker ?c2 w')" using wf unfolding wellformed_def by blast
    then show False by simp
  qed
  have 4: "no_token ?c2 ?s1"
    unfolding no_token_def a using tok by auto
  have "\<forall>j\<in>set (takeWhile (\<lambda>x. x \<noteq> ?i) (posts (trace ?s1))).
          j < length (sends ?s1) \<and> token (sends ?s1 ! j) \<noteq> CtsToken ?c2"
    unfolding p using 2 by (meson set_takeWhileD)
  then show ?thesis
    unfolding order_inv_def using 1 3 4 q by blast
qed

subsection \<open>Cancellation is never undone\<close>

lemma grows_step: "\<exists>q. grows (t\<lparr>queue := q\<rparr>) (step h a t)"
proof (cases "\<exists>u. a = Microtask u")
  case False
  then have "grows (t\<lparr>queue := queue t\<rparr>) (step h a t)" using grows_step_other[of a t h] by simp
  then show ?thesis ..
next
  case True
  then obtain u where a: "a = Microtask u" by blast
  show ?thesis
  proof (cases "queue t")
    case Nil
    then have "grows (t\<lparr>queue := []\<rparr>) (step h a t)"
      by (simp add: a step_microtask_empty grows_def)
    then show ?thesis ..
  next
    case (Cons k ks)
    then show ?thesis using grows_step_microtask[OF Cons, of h u] a by blast
  qed
qed

lemma cancelled_step:
  assumes "isCancellationRequested t tk"
  shows "isCancellationRequested (step h a t) tk"
proof (cases tk)
  case TokenNone
  then show ?thesis using assms by (simp add: isCancellationRequested_def)
next
  case (CtsToken c)
  obtain q where g: "grows (t\<lparr>queue := q\<rparr>) (step h a t)" using grows_step by blast
  have c: "c < length (calls t)" "cts_cancelled (calls t ! c)"
    using assms CtsToken by (simp_all add: isCancellationRequested_def)
  have "c < length (calls (step h a t))" "cts_cancelled (calls (step h a t) ! c)"
    using g c by (auto simp add: grows_def)
  then show ?thesis using CtsToken by (simp add: isCancellationRequested_def)
qed

lemma cancelled_run:
  "isCancellationRequested t tk \<Longrightarrow> isCancellationRequested (run h acts t) tk"
  by (induction acts arbitrary: t) (simp_all add: cancelled_step)

lemma send_keeps_tables:
  "trace (snd (send w m tk p t)) = trace t"
  "map mapMessageNonceToMessageResolve (webworkers (snd (send w m tk p t))) =
     map mapMessageNonceToMessageResolve (webworkers t)"
  by (simp_all add: send_def await_workerReady_def Let_def map_update_same)

lemma afterWorker_spawn_send:
  assumes "\<not> isCancellationRequested t (CtsToken c)"
  shows "length (sends (createWorker_afterWorker c w t)) = Suc (length (sends t))"
    and "token (sends (createWorker_afterWorker c w t) ! length (sends t)) = CtsToken c"
    and "m_id (message (sends (createWorker_afterWorker c w t) ! length (sends t))) = WorkerSpawn"
    and "target (sends (createWorker_afterWorker c w t) ! length (sends t)) = w"
proof -
  have n: "\<not> isCancellationRequested (upd_call c (\<lambda>x. x\<lparr>worker := Some w\<rparr>) t) (CtsToken c)"
    using assms by (auto simp add: isCancellationRequested_def nth_upd_cases)
  show "length (sends (createWorker_afterWorker c w t)) = Suc (length (sends t))"
    and "token (sends (createWorker_afterWorker c w t) ! length (sends t)) = CtsToken c"
    and "m_id (message (sends (createWorker_afterWorker c w t) ! length (sends t))) = WorkerSpawn"
    and "target (sends (createWorker_afterWorker c w t) ! length (sends t)) = w"
    using n
    by (simp_all add: createWorker_afterWorker_def Let_def case_prod_beta spawn_def send_def
        await_send_def await_workerReady_def nth_append)
qed

section \<open>The claims\<close>


text \<open>
  Claim C1. In every state the service reaches, whatever calls, continuations and worker
  events led there, the module ids for which a web worker was created are pairwise
  distinct, and the one created for the n-th of them is the one stored for it. The
  \<open>Worker\<close>s created are exactly those of the web workers, one each, and the map \<open>workers\<close>
  pairs every web worker with exactly one module id. So at most one \<open>Worker\<close> exists per
  module id. \<open>getOrCreateWebWorker\<close> returns the stored web worker of a
  module id that has one, changing nothing and without looking at whether its promises are
  resolved; for a module id without one it creates a single new web worker and stores it.
\<close>

theorem one_worker_per_module:
  "let s = run hsh acts init_state in
     distinct (created_for (trace s)) \<and>
     map (workers s) (created_for (trace s)) = map Some [0..<length (webworkers s)] \<and>
     new_workers (trace s) = [0..<length (webworkers s)] \<and>
     (\<forall>k w. workers s k = Some w \<longrightarrow> w < length (webworkers s)) \<and>
     (\<forall>w<length (webworkers s). \<exists>!k. workers s k = Some w) \<and>
     (\<forall>cfg w. workers s (process_moduleId cfg) = Some w \<longrightarrow> getOrCreateWebWorker cfg s = (w, s)) \<and>
     (\<forall>cfg. workers s (process_moduleId cfg) = None \<longrightarrow>
        fst (getOrCreateWebWorker cfg s) = length (webworkers s) \<and>
        workers (snd (getOrCreateWebWorker cfg s)) =
          (workers s)(process_moduleId cfg \<mapsto> length (webworkers s)) \<and>
        new_workers (trace (snd (getOrCreateWebWorker cfg s))) =
          new_workers (trace s) @ [length (webworkers s)])"
proof -
  define s where "s = run hsh acts init_state"
  have inv: "pool_inv s"
    unfolding s_def by (rule pool_inv_run[OF pool_inv_init_state])
  have 1: "new_workers (trace s) = [0..<length (webworkers s)]"
    and 2: "\<forall>k w. workers s k = Some w \<longrightarrow> w < length (webworkers s)"
    and e: "\<forall>w<length (webworkers s). \<exists>k. workers s k = Some w"
    and u: "\<forall>k k' w. workers s k = Some w \<longrightarrow> workers s k' = Some w \<longrightarrow> k = k'"
    and m: "map (workers s) (created_for (trace s)) = map Some [0..<length (webworkers s)]"
    using inv unfolding pool_inv_def by blast+
  have "distinct (map (workers s) (created_for (trace s)))"
    unfolding m by (simp add: distinct_map)
  then have 0: "distinct (created_for (trace s))" by (simp add: distinct_map)
  have 3: "\<forall>w<length (webworkers s). \<exists>!k. workers s k = Some w"
    using e u by blast
  have 4: "\<forall>cfg w. workers s (process_moduleId cfg) = Some w \<longrightarrow> getOrCreateWebWorker cfg s = (w, s)"
    by (simp add: getOrCreate_hit)
  have 5: "\<forall>cfg. workers s (process_moduleId cfg) = None \<longrightarrow>
        fst (getOrCreateWebWorker cfg s) = length (webworkers s) \<and>
        workers (snd (getOrCreateWebWorker cfg s)) =
          (workers s)(process_moduleId cfg \<mapsto> length (webworkers s)) \<and>
        new_workers (trace (snd (getOrCreateWebWorker cfg s))) =
          new_workers (trace s) @ [length (webworkers s)]"
    by (simp add: getOrCreate_miss)
  show ?thesis
    unfolding Let_def s_def[symmetric] using 0 m 1 2 3 4 5 by blast
qed

theorem one_worker_per_module_witness:
  "workers (run reply_windowId [CallCreateWorker example_cfg, CallCreateWorker example_cfg2] init_state)
      (process_moduleId example_cfg2) = Some 0 \<and>
   0 < length (webworkers (run reply_windowId [CallCreateWorker example_cfg, CallCreateWorker example_cfg2] init_state)) \<and>
   new_workers (trace (run reply_windowId [CallCreateWorker example_cfg, CallCreateWorker example_cfg2] init_state)) = [0] \<and>
   getOrCreateWebWorker example_cfg2
     (run reply_windowId [CallCreateWorker example_cfg, CallCreateWorker example_cfg2] init_state) =
     (0, run reply_windowId [CallCreateWorker example_cfg, CallCreateWorker example_cfg2] init_state)"
proof -
  let ?s = "run reply_windowId [CallCreateWorker example_cfg, CallCreateWorker example_cfg2] init_state"
  have a: "workers ?s (process_moduleId example_cfg2) = Some 0"
    by (simp add: op_defs prim_defs ex_defs Let_def)
  have b: "length (webworkers ?s) = 1"
    by (simp add: op_defs prim_defs ex_defs Let_def)
  note t = one_worker_per_module[of reply_windowId "[CallCreateWorker example_cfg, CallCreateWorker example_cfg2]",
      unfolded Let_def]
  have c: "new_workers (trace ?s) = [0]" using t b by simp
  have d: "getOrCreateWebWorker example_cfg2 ?s = (0, ?s)" using t a by blast
  show ?thesis using a b c d by simp
qed

text \<open>
  Claim C2 as stated fails when the first process is replaced before its \<open>createWorker\<close> has
  acquired the worker: the first source is cancelled and the second process's spawn message
  is posted, but no terminate message is ever posted; afterwards nothing is queued or
  waiting.
\<close>

theorem terminate_before_spawn_counterexample:
  "processes (run reply_windowId [CallCreateWorker example_cfg] init_state)
     (reply_windowId example_cfg) = Some 0 \<and>
   cts_cancelled (calls state_replaced_early_drained ! 0) \<and>
   returned (calls state_replaced_early_drained ! 0) \<and>
   \<not> cts_cancelled (calls state_replaced_early_drained ! 1) \<and>
   length (sends state_replaced_early_drained) = 1 \<and>
   token (sends state_replaced_early_drained ! 0) = CtsToken 1 \<and>
   map m_id (posted_messages (trace state_replaced_early_drained)) = [WorkerSpawn] \<and>
   queue state_replaced_early_drained = [] \<and>
   readyWaiters (webworkers state_replaced_early_drained ! 0) = [] \<and>
   initWaiters (webworkers state_replaced_early_drained ! 0) = []"
  by (simp add: st2_defs op_defs prim_defs ex_defs Let_def)

text \<open>
  Claim C2, as the code has it. Let \<open>createWorker\<close> be called in a reachable state for a
  configuration whose hash is registered for an earlier invocation \<open>c1\<close>. Its synchronous
  part cancels the source of \<open>c1\<close> and registers the new invocation \<open>c2\<close>, whose source is not
  cancelled; and at any later time two invocations with the same hash whose sources are not
  cancelled are the same one. If \<open>c1\<close> had not yet acquired its worker, no \<open>send\<close> is started:
  no terminate message goes out. If \<open>c1\<close> had acquired its worker \<open>w\<close>, a terminate \<open>send\<close> for
  the configuration of \<open>c1\<close> is started with \<open>CancellationToken.None\<close>, and in every later
  state every post made by a \<open>send\<close> that carries the token of \<open>c2\<close> comes after the
  post of that terminate message. The \<open>send\<close> invocations with the token of \<open>c2\<close> are those
  of its spawn message: \<open>createWorker\<close>, resuming with the worker and not cancelled, starts
  one \<open>send\<close> of a \<open>WorkerSpawn\<close> message with that token.
\<close>

theorem replaced_process_terminated_before_spawn:
  assumes "processes (run hsh acts0 init_state) (hsh cfg) = Some c1"
  shows "let s = run hsh acts0 init_state; s1 = createWorker hsh cfg s; c2 = length (calls s);
             i = length (sends s) in
     c1 < c2 \<and> isCancellationRequested s1 (CtsToken c1) \<and>
     \<not> isCancellationRequested s1 (CtsToken c2) \<and> processes s1 (hsh cfg) = Some c2 \<and>
     (\<forall>acts a b. a < length (calls (run hsh acts s1)) \<and> b < length (calls (run hsh acts s1)) \<and>
        \<not> cts_cancelled (calls (run hsh acts s1) ! a) \<and>
        \<not> cts_cancelled (calls (run hsh acts s1) ! b) \<and>
        hsh (cc_configuration (calls (run hsh acts s1) ! a)) =
        hsh (cc_configuration (calls (run hsh acts s1) ! b)) \<longrightarrow> a = b) \<and>
     (case worker (calls s ! c1) of
        None \<Rightarrow> sends s1 = sends s
      | Some w \<Rightarrow>
          sends s1 = sends s @ [terminate_send w (cc_configuration (calls s ! c1))] \<and>
          (\<forall>acts j. j < length (sends (run hsh acts s1)) \<and>
             token (sends (run hsh acts s1) ! j) = CtsToken c2 \<and>
             j \<in> set (posts (trace (run hsh acts s1))) \<longrightarrow>
             precedes i j (posts (trace (run hsh acts s1))))) \<and>
     (\<forall>t w. \<not> isCancellationRequested t (CtsToken c2) \<longrightarrow>
        length (sends (createWorker_afterWorker c2 w t)) = Suc (length (sends t)) \<and>
        token (sends (createWorker_afterWorker c2 w t) ! length (sends t)) = CtsToken c2 \<and>
        m_id (message (sends (createWorker_afterWorker c2 w t) ! length (sends t))) = WorkerSpawn)"
proof -
  let ?s = "run hsh acts0 init_state"
  let ?s1 = "createWorker hsh cfg ?s"
  let ?c2 = "length (calls ?s)"
  let ?i = "length (sends ?s)"
  have reg: "processes ?s (hsh cfg) = Some c1" using assms .
  have wf: "wellformed ?s" by (rule reachable_wellformed)
  have wf1: "wellformed ?s1" using wf by (rule wf_createWorker)
  have inv1: "proc_inv hsh ?s1"
    by (intro proc_inv_createWorker reachable_proc_inv)
  have c1: "c1 < ?c2" using wf reg by (rule wf_registered)
  have 1: "isCancellationRequested ?s1 (CtsToken c1)"
    unfolding isCancellationRequested_def
    using createWorker_cancels[where t="?s" and h=hsh and cfg=cfg, OF reg c1] by simp
  have new: "calls ?s1 ! ?c2 = \<lparr>cc_configuration = cfg, cts_cancelled = False, worker = None,
       windowPort = None, workerPort = None, returned = False\<rparr>"
    by (simp add: createWorker_calls nth_append disposeWorker_length)
  have 2: "\<not> isCancellationRequested ?s1 (CtsToken ?c2)"
    by (simp add: isCancellationRequested_def new)
  have 3: "processes ?s1 (hsh cfg) = Some ?c2"
    by (rule createWorker_calls)
  have 4: "\<forall>acts a b. a < length (calls (run hsh acts ?s1)) \<and> b < length (calls (run hsh acts ?s1)) \<and>
        \<not> cts_cancelled (calls (run hsh acts ?s1) ! a) \<and>
        \<not> cts_cancelled (calls (run hsh acts ?s1) ! b) \<and>
        hsh (cc_configuration (calls (run hsh acts ?s1) ! a)) =
        hsh (cc_configuration (calls (run hsh acts ?s1) ! b)) \<longrightarrow> a = b"
  proof (intro allI impI, elim conjE)
    fix acts a b
    assume "a < length (calls (run hsh acts ?s1))" "b < length (calls (run hsh acts ?s1))"
        "\<not> cts_cancelled (calls (run hsh acts ?s1) ! a)"
        "\<not> cts_cancelled (calls (run hsh acts ?s1) ! b)"
        "hsh (cc_configuration (calls (run hsh acts ?s1) ! a)) =
         hsh (cc_configuration (calls (run hsh acts ?s1) ! b))"
    then show "a = b" by (rule proc_inv_unique[OF proc_inv_run[OF inv1, of acts]])
  qed
  have 5: "case worker (calls ?s ! c1) of
        None \<Rightarrow> sends ?s1 = sends ?s
      | Some w \<Rightarrow>
          sends ?s1 = sends ?s @ [terminate_send w (cc_configuration (calls ?s ! c1))] \<and>
          (\<forall>acts j. j < length (sends (run hsh acts ?s1)) \<and>
             token (sends (run hsh acts ?s1) ! j) = CtsToken ?c2 \<and>
             j \<in> set (posts (trace (run hsh acts ?s1))) \<longrightarrow>
             precedes ?i j (posts (trace (run hsh acts ?s1))))"
  proof (cases "worker (calls ?s ! c1)")
    case None
    then show ?thesis
      using createWorker_no_worker[where t="?s" and h=hsh and cfg=cfg, OF reg None]
      by simp
  next
    case (Some w)
    have rdy: "workerReady (webworkers ?s ! w)" using wf_registered(2)[OF wf reg Some] by simp
    have a: "sends ?s1 = sends ?s @ [terminate_send w (cc_configuration (calls ?s ! c1))]"
      by (rule createWorker_with_worker(1)[where t="?s" and h=hsh and cfg=cfg, OF reg Some rdy])
    have o: "order_inv ?i ?c2 ?s1"
      using wf reg Some by (rule order_inv_createWorker)
    have "\<forall>acts j. j < length (sends (run hsh acts ?s1)) \<and>
             token (sends (run hsh acts ?s1) ! j) = CtsToken ?c2 \<and>
             j \<in> set (posts (trace (run hsh acts ?s1))) \<longrightarrow>
             precedes ?i j (posts (trace (run hsh acts ?s1)))"
    proof (intro allI impI, elim conjE)
      fix acts j
      assume "j < length (sends (run hsh acts ?s1))" "token (sends (run hsh acts ?s1) ! j) = CtsToken ?c2"
        "j \<in> set (posts (trace (run hsh acts ?s1)))"
      then show "precedes ?i j (posts (trace (run hsh acts ?s1)))"
        by (rule order_inv_precedes[OF order_inv_run[OF wf1 o, of hsh acts]])
    qed
    then show ?thesis using a by (simp only: Some option.case simp_thms)
  qed
  have 6: "\<forall>t w. \<not> isCancellationRequested t (CtsToken ?c2) \<longrightarrow>
        length (sends (createWorker_afterWorker ?c2 w t)) = Suc (length (sends t)) \<and>
        token (sends (createWorker_afterWorker ?c2 w t) ! length (sends t)) = CtsToken ?c2 \<and>
        m_id (message (sends (createWorker_afterWorker ?c2 w t) ! length (sends t))) = WorkerSpawn"
    by (simp add: afterWorker_spawn_send)
  show ?thesis
    unfolding Let_def
    by (intro conjI) (rule c1 1 2 3 4 5 6)+
qed

theorem replaced_process_terminated_before_spawn_witness:
  "processes state_worker_acquired (reply_windowId example_cfg) = Some 0 \<and>
   worker (calls state_worker_acquired ! 0) = Some 0 \<and>
   length (calls state_worker_acquired) = 1 \<and> length (sends state_worker_acquired) = 1 \<and>
   2 < length (sends state_replaced_after_spawn) \<and>
   token (sends state_replaced_after_spawn ! 2) = CtsToken 1 \<and>
   2 \<in> set (posts (trace state_replaced_after_spawn)) \<and>
   precedes 1 2 (posts (trace state_replaced_after_spawn))"
proof -
  have e: "state_worker_acquired = run reply_windowId [CallCreateWorker example_cfg,
       WorkerMessage 0 ready_message, Microtask ''u1'', Microtask ''u2''] init_state"
    by (simp add: state_worker_acquired_def)
  have h: "processes state_worker_acquired (reply_windowId example_cfg) = Some 0"
    by (simp add: st2_defs op_defs prim_defs ex_defs Let_def)
  have w: "worker (calls state_worker_acquired ! 0) = Some 0"
    by (simp add: st2_defs op_defs prim_defs ex_defs Let_def)
  have l: "length (sends state_worker_acquired) = 1" "length (calls state_worker_acquired) = 1"
    by (simp_all add: st2_defs op_defs prim_defs ex_defs Let_def)
  have j: "2 < length (sends state_replaced_after_spawn)"
    "token (sends state_replaced_after_spawn ! 2) = CtsToken 1"
    "2 \<in> set (posts (trace state_replaced_after_spawn))"
    by (simp_all add: state_replaced_after_spawn_def st2_defs op_defs prim_defs ex_defs Let_def)
  note t = replaced_process_terminated_before_spawn[of reply_windowId _ example_cfg 0,
      OF h[unfolded e], folded e, unfolded Let_def w option.case l]
  from t have "\<forall>acts j. j < length (sends (run reply_windowId acts
        (createWorker reply_windowId example_cfg state_worker_acquired))) \<and>
      token (sends (run reply_windowId acts
        (createWorker reply_windowId example_cfg state_worker_acquired)) ! j) = CtsToken 1 \<and>
      j \<in> set (posts (trace (run reply_windowId acts
        (createWorker reply_windowId example_cfg state_worker_acquired)))) \<longrightarrow>
      precedes 1 j (posts (trace (run reply_windowId acts
        (createWorker reply_windowId example_cfg state_worker_acquired))))"
    by blast
  from this[THEN spec, of "[Microtask ''u3'', Microtask ''u4'', Microtask ''u5'', Microtask ''u6'',
       Microtask ''u7'']", THEN spec, of 2, folded state_replaced_after_spawn_def] j
  have "precedes 1 2 (posts (trace state_replaced_after_spawn))" by blast
  then show ?thesis using h w l j by blast
qed

text \<open>
  Claim C3. From every reachable state, the part of \<open>createWorker\<close> before its first
  \<open>await\<close> adds the invocation with a fresh source that is not cancelled, registers it in
  \<open>processes\<close> under the hash of its configuration and leaves it suspended on the \<open>init\<close>
  promise of its web worker; \<open>disposeWorker\<close> for that configuration then cancels its
  source. In every reachable state, every invocation whose source is not cancelled is the
  registered entry of its hash, and \<open>disposeWorker\<close> with its configuration cancels it.
\<close>

theorem createWorker_registers_before_first_await:
  "let s = run hsh acts init_state; s' = createWorker hsh cfg s; c = length (calls s) in
     length (calls s') = Suc c \<and> cc_configuration (calls s' ! c) = cfg \<and>
     \<not> cts_cancelled (calls s' ! c) \<and> \<not> returned (calls s' ! c) \<and>
     worker (calls s' ! c) = None \<and> processes s' (hsh cfg) = Some c \<and>
     (\<exists>w. workers s' (process_moduleId cfg) = Some w \<and>
        (CreateAfterWorker c w \<in> set (queue s') \<or> c \<in> set (initWaiters (webworkers s' ! w)))) \<and>
     cts_cancelled (calls (disposeWorker hsh cfg s') ! c) \<and>
     (\<forall>c'<length (calls s). \<not> cts_cancelled (calls s ! c') \<longrightarrow>
        processes s (hsh (cc_configuration (calls s ! c'))) = Some c' \<and>
        cts_cancelled (calls (disposeWorker hsh (cc_configuration (calls s ! c')) s) ! c'))"
proof -
  define s where "s = run hsh acts init_state"
  define s' where "s' = createWorker hsh cfg s"
  define c where "c = length (calls s)"
  have wf: "wellformed s" unfolding s_def by (rule wf_run[OF wf_init_state])
  have inv: "proc_inv hsh s" unfolding s_def by (rule proc_inv_run[OF proc_inv_init_state])
  have calls: "calls s' = calls (disposeWorker hsh cfg (emit (EvLog LogTrace (CreateWorkerLog cfg)) s)) @
       [\<lparr>cc_configuration = cfg, cts_cancelled = False, worker = None, windowPort = None,
         workerPort = None, returned = False\<rparr>]"
    unfolding s'_def by (rule createWorker_calls)
  have len: "length (calls (disposeWorker hsh cfg (emit (EvLog LogTrace (CreateWorkerLog cfg)) s))) = c"
    by (simp add: disposeWorker_length c_def)
  have 1: "length (calls s') = Suc c" using calls len by simp
  have 2: "calls s' ! c = \<lparr>cc_configuration = cfg, cts_cancelled = False, worker = None,
       windowPort = None, workerPort = None, returned = False\<rparr>"
    using calls len by (simp add: nth_append)
  have 3: "processes s' (hsh cfg) = Some c"
    unfolding s'_def c_def by (rule createWorker_calls)
  have 4: "\<exists>w. workers s' (process_moduleId cfg) = Some w \<and>
        (CreateAfterWorker c w \<in> set (queue s') \<or> c \<in> set (initWaiters (webworkers s' ! w)))"
    unfolding s'_def c_def by (rule createWorker_pending[OF wf])
  have 5: "cts_cancelled (calls (disposeWorker hsh cfg s') ! c)"
    using 3 1 by (intro disposeWorker_cancels) simp_all
  have 6: "processes s (hsh (cc_configuration (calls s ! c'))) = Some c' \<and>
        cts_cancelled (calls (disposeWorker hsh (cc_configuration (calls s ! c')) s) ! c')"
    if lt0: "c' < c" and nc: "\<not> cts_cancelled (calls s ! c')" for c'
  proof -
    have lt: "c' < length (calls s)" using lt0 by (simp add: c_def)
    have r: "processes s (hsh (cc_configuration (calls s ! c'))) = Some c'"
      using inv lt nc unfolding proc_inv_def by blast
    then show ?thesis using lt by (simp add: disposeWorker_cancels)
  qed
  show ?thesis
    unfolding Let_def s_def[symmetric] s'_def[symmetric] c_def[symmetric]
    using 1 2 3 4 5 6 by simp
qed

theorem createWorker_registers_before_first_await_witness:
  "0 < length (calls (run reply_windowId [CallCreateWorker example_cfg, WorkerMessage 0 ready_message,
        Microtask ''u1'', Microtask ''u2''] init_state)) \<and>
   \<not> cts_cancelled (calls (run reply_windowId [CallCreateWorker example_cfg, WorkerMessage 0 ready_message,
        Microtask ''u1'', Microtask ''u2''] init_state) ! 0) \<and>
   processes (run reply_windowId [CallCreateWorker example_cfg, WorkerMessage 0 ready_message,
        Microtask ''u1'', Microtask ''u2''] init_state) 1 = Some 0 \<and>
   cts_cancelled (calls (disposeWorker reply_windowId example_cfg
      (run reply_windowId [CallCreateWorker example_cfg, WorkerMessage 0 ready_message,
        Microtask ''u1'', Microtask ''u2''] init_state)) ! 0)"
proof -
  let ?acts = "[CallCreateWorker example_cfg, WorkerMessage 0 ready_message, Microtask ''u1'', Microtask ''u2'']"
  let ?s = "run reply_windowId ?acts init_state"
  have a: "0 < length (calls ?s)" by (simp add: op_defs prim_defs ex_defs Let_def)
  have b: "\<not> cts_cancelled (calls ?s ! 0)" by (simp add: op_defs prim_defs ex_defs Let_def)
  have c: "cc_configuration (calls ?s ! 0) = example_cfg" by (simp add: op_defs prim_defs ex_defs Let_def)
  have h: "reply_windowId example_cfg = 1" by (simp add: ex_defs)
  note t = createWorker_registers_before_first_await[of reply_windowId ?acts example_cfg, unfolded Let_def]
  from t a b have "processes ?s (reply_windowId (cc_configuration (calls ?s ! 0))) = Some 0 \<and>
        cts_cancelled (calls (disposeWorker reply_windowId (cc_configuration (calls ?s ! 0)) ?s) ! 0)"
    by blast
  then show ?thesis using a b unfolding c h by simp
qed

text \<open>
  Claim C4 as stated fails when a registered handle is disposed before its \<open>createWorker\<close>
  has acquired the worker: the source is cancelled, but no \<open>send\<close> is started, and after the
  worker got ready and every continuation ran nothing has been posted and nothing is queued
  or waiting.
\<close>

theorem terminate_always_delivered_counterexample:
  "processes (run reply_windowId [CallCreateWorker example_cfg] init_state)
     (reply_windowId example_cfg) = Some 0 \<and>
   state_disposed_early =
     disposeWorker reply_windowId example_cfg
       (run reply_windowId [CallCreateWorker example_cfg] init_state) \<and>
   cts_cancelled (calls state_disposed_early ! 0) \<and>
   sends state_disposed_early = [] \<and>
   sends state_disposed_early_drained = [] \<and>
   posted_messages (trace state_disposed_early_drained) = [] \<and>
   queue state_disposed_early_drained = [] \<and>
   readyWaiters (webworkers state_disposed_early_drained ! 0) = [] \<and>
   initWaiters (webworkers state_disposed_early_drained ! 0) = [] \<and>
   returned (calls state_disposed_early_drained ! 0)"
  by (simp add: st2_defs op_defs prim_defs ex_defs Let_def)

text \<open>
  Claim C4, as the code has it. Let the handle of invocation \<open>c\<close> be registered in a
  reachable state and be disposed, by \<open>disposeWorker\<close> or by the \<open>createWorker\<close> that replaces
  it; its source is cancelled then. If \<open>c\<close> has not yet acquired its worker, the closure's
  \<open>worker?.terminate\<close> does nothing: no \<open>send\<close> is started and nothing is posted. If \<open>c\<close> has
  acquired its worker \<open>w\<close>, a \<open>send\<close> of the terminate message for the configuration of \<open>c\<close> is
  started with \<open>CancellationToken.None\<close>; it has not posted yet, and as soon as more
  continuations have run than were queued at the disposal, whatever calls and worker events
  come in between, it has posted the terminate message to \<open>w\<close>.
\<close>

theorem terminate_delivered_once_worker_acquired:
  assumes "processes (run hsh acts0 init_state) (hsh cfg) = Some c"
  shows "let s = run hsh acts0 init_state; s1 = disposeWorker hsh cfg s;
             s2 = createWorker hsh cfg s; i = length (sends s) in
     isCancellationRequested s1 (CtsToken c) \<and> isCancellationRequested s2 (CtsToken c) \<and>
     (case worker (calls s ! c) of
        None \<Rightarrow> sends s1 = sends s \<and> sends s2 = sends s \<and> posts (trace s1) = posts (trace s) \<and>
          posts (trace s2) = posts (trace s)
      | Some w \<Rightarrow>
          sends s1 = sends s @ [terminate_send w (cc_configuration (calls s ! c))] \<and>
          sends s2 = sends s @ [terminate_send w (cc_configuration (calls s ! c))] \<and>
          i \<notin> set (posts (trace s1)) \<and> i \<notin> set (posts (trace s2)) \<and>
          (\<forall>acts. length (queue s) < count_microtasks acts \<longrightarrow>
             (\<exists>u. EvPost i w ((terminate_message (cc_configuration (calls s ! c)))\<lparr>m_nonce := Some u\<rparr>)
                     None \<in> set (trace (run hsh acts s1))) \<and>
             (\<exists>u. EvPost i w ((terminate_message (cc_configuration (calls s ! c)))\<lparr>m_nonce := Some u\<rparr>)
                     None \<in> set (trace (run hsh acts s2)))))"
proof -
  define s where "s = run hsh acts0 init_state"
  define s1 where "s1 = disposeWorker hsh cfg s"
  define s2 where "s2 = createWorker hsh cfg s"
  define i where "i = length (sends s)"
  have reg: "processes s (hsh cfg) = Some c" using assms by (simp add: s_def)
  have wf: "wellformed s" unfolding s_def by (rule reachable_wellformed)
  have c: "c < length (calls s)" using wf reg by (rule wf_registered)
  have p2: "posts (trace s2) = posts (trace s)"
    unfolding s2_def using same_posts_create(2)[OF same_posts_refl, of s hsh cfg]
    by (simp add: same_posts_def)
  have p1: "posts (trace s1) = posts (trace s)"
    unfolding s1_def using same_dispose(4)[OF same_posts_refl, of s hsh cfg]
    by (simp add: same_posts_def)
  have fresh: "i \<notin> set (posts (trace s))"
    using wf unfolding i_def wellformed_def by blast
  have 1: "isCancellationRequested s1 (CtsToken c)"
    unfolding s1_def isCancellationRequested_def using reg c
    by (simp add: disposeWorker_cancels disposeWorker_length)
  have 2: "isCancellationRequested s2 (CtsToken c)"
    unfolding s2_def isCancellationRequested_def using createWorker_cancels[where t=s and h=hsh and cfg=cfg, OF reg c] by simp
  have 3: "case worker (calls s ! c) of
        None \<Rightarrow> sends s1 = sends s \<and> sends s2 = sends s \<and> posts (trace s1) = posts (trace s) \<and>
          posts (trace s2) = posts (trace s)
      | Some w \<Rightarrow>
          sends s1 = sends s @ [terminate_send w (cc_configuration (calls s ! c))] \<and>
          sends s2 = sends s @ [terminate_send w (cc_configuration (calls s ! c))] \<and>
          i \<notin> set (posts (trace s1)) \<and> i \<notin> set (posts (trace s2)) \<and>
          (\<forall>acts. length (queue s) < count_microtasks acts \<longrightarrow>
             (\<exists>u. EvPost i w ((terminate_message (cc_configuration (calls s ! c)))\<lparr>m_nonce := Some u\<rparr>)
                     None \<in> set (trace (run hsh acts s1))) \<and>
             (\<exists>u. EvPost i w ((terminate_message (cc_configuration (calls s ! c)))\<lparr>m_nonce := Some u\<rparr>)
                     None \<in> set (trace (run hsh acts s2))))"
  proof (cases "worker (calls s ! c)")
    case None
    show ?thesis
      using None p1 p2 disposeWorker_no_worker(1)[where t=s and h=hsh and cfg=cfg, OF reg None] createWorker_no_worker[where t=s and h=hsh and cfg=cfg, OF reg None]
      by (simp add: s1_def s2_def)
  next
    case (Some w)
    let ?x = "terminate_send w (cc_configuration (calls s ! c))"
    have rdy: "workerReady (webworkers s ! w)" using wf_registered(2)[OF wf reg Some] by simp
    have a1: "sends s1 = sends s @ [?x]" and q1: "queue s1 = queue s @ SendAfterReady i # []"
      unfolding s1_def i_def using disposeWorker_with_worker[where t=s and h=hsh and cfg=cfg, OF reg Some rdy] by simp_all
    have a2: "sends s2 = sends s @ [?x]"
      unfolding s2_def by (rule createWorker_with_worker(1)[where t=s and h=hsh and cfg=cfg, OF reg Some rdy])
    obtain new where q2: "queue s2 = queue s @ SendAfterReady i # new"
      unfolding s2_def i_def using createWorker_with_worker(2)[where t=s and h=hsh and cfg=cfg, OF reg Some rdy] by blast
    have d: "(\<exists>u. EvPost i w ((terminate_message (cc_configuration (calls s ! c)))\<lparr>m_nonce := Some u\<rparr>)
                     None \<in> set (trace (run hsh acts s1))) \<and>
             (\<exists>u. EvPost i w ((terminate_message (cc_configuration (calls s ! c)))\<lparr>m_nonce := Some u\<rparr>)
                     None \<in> set (trace (run hsh acts s2)))"
      if n: "length (queue s) < count_microtasks acts" for acts
    proof -
      have x1: "i < length (sends s1)" "sends s1 ! i = ?x" by (simp_all add: a1 i_def)
      have x2: "i < length (sends s2)" "sends s2 ! i = ?x" by (simp_all add: a2 i_def)
      show ?thesis
        using send_delivery[OF q1 x1(1) _ n, of hsh] send_delivery[OF q2 x2(1) _ n, of hsh]
        by (simp add: x1(2) x2(2))
    qed
    show ?thesis using Some a1 a2 d fresh p1 p2 by simp
  qed
  show ?thesis
    unfolding Let_def s_def[symmetric] s1_def[symmetric] s2_def[symmetric] i_def[symmetric]
    using 1 2 3 by blast
qed

theorem terminate_delivered_once_worker_acquired_witness:
  "processes state_worker_acquired (reply_windowId example_cfg) = Some 0 \<and>
   worker (calls state_worker_acquired ! 0) = Some 0 \<and>
   length (queue state_worker_acquired) < count_microtasks [Microtask ''u3'', Microtask ''u4''] \<and>
   isCancellationRequested (disposeWorker reply_windowId example_cfg state_worker_acquired) (CtsToken 0) \<and>
   (\<exists>u. EvPost 1 0 ((terminate_message example_cfg)\<lparr>m_nonce := Some u\<rparr>) None
      \<in> set (trace (run reply_windowId [Microtask ''u3'', Microtask ''u4'']
            (disposeWorker reply_windowId example_cfg state_worker_acquired))))"
proof -
  have e: "state_worker_acquired = run reply_windowId [CallCreateWorker example_cfg,
       WorkerMessage 0 ready_message, Microtask ''u1'', Microtask ''u2''] init_state"
    by (simp add: state_worker_acquired_def)
  have h: "processes state_worker_acquired (reply_windowId example_cfg) = Some 0"
    by (simp add: st2_defs op_defs prim_defs ex_defs Let_def)
  have w: "worker (calls state_worker_acquired ! 0) = Some 0"
    by (simp add: st2_defs op_defs prim_defs ex_defs Let_def)
  have c: "cc_configuration (calls state_worker_acquired ! 0) = example_cfg"
    by (simp add: st2_defs op_defs prim_defs ex_defs Let_def)
  have l: "length (sends state_worker_acquired) = 1" "length (queue state_worker_acquired) = 1"
    by (simp_all add: st2_defs op_defs prim_defs ex_defs Let_def)
  have n: "length (queue state_worker_acquired) < count_microtasks [Microtask ''u3'', Microtask ''u4'']"
    by (simp add: l)
  note t = terminate_delivered_once_worker_acquired[of reply_windowId _ example_cfg 0,
      OF h[unfolded e], folded e, unfolded Let_def w option.case c l(1)]
  from t n have "\<exists>u. EvPost 1 0 ((terminate_message example_cfg)\<lparr>m_nonce := Some u\<rparr>) None
      \<in> set (trace (run reply_windowId [Microtask ''u3'', Microtask ''u4'']
            (disposeWorker reply_windowId example_cfg state_worker_acquired)))"
    by blast
  then show ?thesis using h w n t by blast
qed

text \<open>
  Claim C5. When \<open>send\<close> resumes and finds its token cancelled, it only resolves its own
  promise: nothing is added to the trace, so no message is posted, and no web worker
  changes, so no entry is added to a nonce table. A cancelled token stays cancelled through
  every run, and the part of \<open>send\<close> before its \<open>await\<close> posts nothing and adds no entry
  either.
\<close>

theorem send_with_cancelled_token_transmits_nothing:
  "isCancellationRequested s (token (sends s ! i)) \<Longrightarrow>
     send_continue i uuid s = resolve_send i s \<and>
     trace (send_continue i uuid s) = trace s \<and>
     webworkers (send_continue i uuid s) = webworkers s \<and>
     isCancellationRequested (run hsh acts s) (token (sends s ! i)) \<and>
     trace (snd (send w m tk p s)) = trace s \<and>
     map mapMessageNonceToMessageResolve (webworkers (snd (send w m tk p s))) =
       map mapMessageNonceToMessageResolve (webworkers s)"
  by (simp add: send_continue_def resolve_send_def Let_def cancelled_run send_keeps_tables)

theorem send_with_cancelled_token_transmits_nothing_witness:
  "isCancellationRequested state_spawn_queued_then_disposed
     (token (sends state_spawn_queued_then_disposed ! 0)) \<and>
   queue state_spawn_queued_then_disposed = [SendAfterReady 0, SendAfterReady 1] \<and>
   trace (send_continue 0 ''u3'' state_spawn_queued_then_disposed) =
     trace state_spawn_queued_then_disposed \<and>
   webworkers (send_continue 0 ''u3'' state_spawn_queued_then_disposed) =
     webworkers state_spawn_queued_then_disposed"
proof -
  have h: "isCancellationRequested state_spawn_queued_then_disposed
     (token (sends state_spawn_queued_then_disposed ! 0))"
    by (simp add: st_defs op_defs prim_defs ex_defs Let_def)
  have q: "queue state_spawn_queued_then_disposed = [SendAfterReady 0, SendAfterReady 1]"
    by (simp add: st_defs op_defs prim_defs ex_defs Let_def)
  show ?thesis
    using send_with_cancelled_token_transmits_nothing[OF h, of "''u3''"] h q by blast
qed

text \<open>
  Claim C6. An acknowledgement with a non-empty nonce never logs anything. If the nonce has
  no entry in the table of the web worker, the state is unchanged. If it has one, the entry
  is removed, the promise of the \<open>send\<close> invocation it names is resolved, and handling the
  same acknowledgement a second time changes nothing.
\<close>

theorem ack_completes_pending_entry_once:
  assumes "r_id ev = WorkerAck" "r_nonce ev = Some n" "n \<noteq> []" "w < length (webworkers s)"
  shows "trace (onmessage w ev s) = trace s \<and>
    (case mapMessageNonceToMessageResolve (webworkers s ! w) n of
       None \<Rightarrow> onmessage w ev s = s
     | Some i \<Rightarrow>
         onmessage w ev s =
           resolve_send i (upd_worker w (\<lambda>y. y\<lparr>mapMessageNonceToMessageResolve :=
             (mapMessageNonceToMessageResolve y)(n := None)\<rparr>) s) \<and>
         mapMessageNonceToMessageResolve (webworkers (onmessage w ev s) ! w) =
           (mapMessageNonceToMessageResolve (webworkers s ! w))(n := None) \<and>
         (i < length (sends s) \<longrightarrow> sendResolved (sends (onmessage w ev s) ! i)) \<and>
         onmessage w ev (onmessage w ev s) = onmessage w ev s)"
  using assms
  by (auto simp add: onmessage_def truthy_def resolve_send_def Let_def split: option.splits)

theorem ack_completes_pending_entry_once_witness:
  "mapMessageNonceToMessageResolve (webworkers state_spawn_posted ! 0) ''u3'' = Some 0 \<and>
   \<not> sendResolved (sends state_spawn_posted ! 0) \<and>
   mapMessageNonceToMessageResolve
     (webworkers (onmessage 0 (ack_message (Some ''u3'')) state_spawn_posted) ! 0) ''u3'' = None \<and>
   sendResolved (sends (onmessage 0 (ack_message (Some ''u3'')) state_spawn_posted) ! 0) \<and>
   onmessage 0 (ack_message (Some ''u3''))
     (onmessage 0 (ack_message (Some ''u3'')) state_spawn_posted) =
     onmessage 0 (ack_message (Some ''u3'')) state_spawn_posted \<and>
   mapMessageNonceToMessageResolve (webworkers state_spawn_posted ! 0) ''zz'' = None \<and>
   onmessage 0 (ack_message (Some ''zz'')) state_spawn_posted = state_spawn_posted"
proof -
  have l: "0 < length (webworkers state_spawn_posted)" "0 < length (sends state_spawn_posted)"
    by (simp_all add: st_defs op_defs prim_defs ex_defs Let_def)
  have a: "mapMessageNonceToMessageResolve (webworkers state_spawn_posted ! 0) ''u3'' = Some 0"
    by (simp add: st_defs op_defs prim_defs ex_defs Let_def)
  have b: "mapMessageNonceToMessageResolve (webworkers state_spawn_posted ! 0) ''zz'' = None"
    by (simp add: st_defs op_defs prim_defs ex_defs Let_def)
  have c: "\<not> sendResolved (sends state_spawn_posted ! 0)"
    by (simp add: st_defs op_defs prim_defs ex_defs Let_def)
  have m: "r_id (ack_message x) = WorkerAck" "r_nonce (ack_message x) = x" for x
    by (simp_all add: ack_message_def)
  note t1 = ack_completes_pending_entry_once[OF m(1) m(2) _ l(1), of "''u3''", simplified a option.case]
  note t2 = ack_completes_pending_entry_once[OF m(1) m(2) _ l(1), of "''zz''", simplified b option.case]
  from t1 have x: "mapMessageNonceToMessageResolve
       (webworkers (onmessage 0 (ack_message (Some ''u3'')) state_spawn_posted) ! 0) =
     (mapMessageNonceToMessageResolve (webworkers state_spawn_posted ! 0))(''u3'' := None)"
    by blast
  have y: "mapMessageNonceToMessageResolve
     (webworkers (onmessage 0 (ack_message (Some ''u3'')) state_spawn_posted) ! 0) ''u3'' = None"
    unfolding x by simp
  from t1 l(2) have z: "sendResolved (sends (onmessage 0 (ack_message (Some ''u3'')) state_spawn_posted) ! 0)"
    by blast
  show ?thesis using t1 t2 a b c y z by blast
qed

text \<open>
  Claim C7. If the source of a \<open>createWorker\<close> invocation is cancelled when it resumes
  after the worker is acquired, the invocation stores the worker and returns: no port is
  created, no \<open>send\<close> is started, nothing is queued or traced and no web worker changes. If it
  is cancelled when the invocation resumes after the spawn, the invocation returns and the
  trace is unchanged, so nothing is relayed. In both cases the invocation returns normally.
\<close>

theorem createWorker_returns_early_when_cancelled:
  "isCancellationRequested s (CtsToken c) \<Longrightarrow>
     createWorker_afterWorker c w s = upd_call c (\<lambda>x. x\<lparr>worker := Some w, returned := True\<rparr>) s \<and>
     ports (createWorker_afterWorker c w s) = ports s \<and>
     sends (createWorker_afterWorker c w s) = sends s \<and>
     webworkers (createWorker_afterWorker c w s) = webworkers s \<and>
     queue (createWorker_afterWorker c w s) = queue s \<and>
     trace (createWorker_afterWorker c w s) = trace s \<and>
     returned (calls (createWorker_afterWorker c w s) ! c) \<and>
     createWorker_afterSpawn c s = upd_call c (\<lambda>x. x\<lparr>returned := True\<rparr>) s \<and>
     trace (createWorker_afterSpawn c s) = trace s \<and>
     returned (calls (createWorker_afterSpawn c s) ! c)"
  by (simp add: createWorker_afterWorker_def createWorker_afterSpawn_def isCancellationRequested_def
      upd_call_def)

theorem createWorker_returns_early_when_cancelled_witness:
  "isCancellationRequested state_disposed_early (CtsToken 0) \<and>
   ports (createWorker_afterWorker 0 0 state_disposed_early) = ports state_disposed_early \<and>
   sends (createWorker_afterWorker 0 0 state_disposed_early) = sends state_disposed_early \<and>
   trace (createWorker_afterWorker 0 0 state_disposed_early) = trace state_disposed_early \<and>
   returned (calls (createWorker_afterWorker 0 0 state_disposed_early) ! 0) \<and>
   isCancellationRequested state_spawn_queued_then_disposed (CtsToken 0) \<and>
   trace (createWorker_afterSpawn 0 state_spawn_queued_then_disposed) =
     trace state_spawn_queued_then_disposed \<and>
   returned (calls (createWorker_afterSpawn 0 state_spawn_queued_then_disposed) ! 0)"
proof -
  have h1: "isCancellationRequested state_disposed_early (CtsToken 0)"
    by (simp add: st_defs op_defs prim_defs ex_defs Let_def)
  have h2: "isCancellationRequested state_spawn_queued_then_disposed (CtsToken 0)"
    by (simp add: st_defs op_defs prim_defs ex_defs Let_def)
  show ?thesis
    using createWorker_returns_early_when_cancelled[OF h1, of 0]
      createWorker_returns_early_when_cancelled[OF h2, of 0] h1 h2 by blast
qed

text \<open>
  Claim C8. \<open>disposeWorker\<close> for a configuration whose hash has no entry in \<open>processes\<close>
  leaves the whole state unchanged.
\<close>

theorem disposeWorker_without_handle_is_noop:
  "processes s (hsh cfg) = None \<Longrightarrow>
     disposeWorker hsh cfg s = s \<and> step hsh (CallDisposeWorker cfg) s = s"
  by (simp add: disposeWorker_def step_def)

theorem disposeWorker_without_handle_is_noop_witness:
  "processes state_disposed_early (reply_windowId example_cfg) = None \<and>
   disposeWorker reply_windowId example_cfg state_disposed_early = state_disposed_early"
proof -
  have h: "processes state_disposed_early (reply_windowId example_cfg) = None"
    by (simp add: st_defs op_defs prim_defs ex_defs Let_def)
  show ?thesis
    using disposeWorker_without_handle_is_noop[of state_disposed_early reply_windowId example_cfg] h
    by blast
qed

text \<open>
  Claim C9. \<open>disposeWorker\<close> leaves the map \<open>workers\<close> unchanged, creates no \<open>Worker\<close>, and
  keeps the type, both promises' state and the nonce table of every web worker. The dispose
  closure itself changes \<open>processes\<close> only by deleting the captured hash, \<open>calls\<close> only by
  cancelling the source of its own invocation, and \<open>ports\<close> only by closing its two ports.
\<close>

theorem disposal_keeps_the_shared_workers:
  "workers (disposeWorker hsh cfg s) = workers s \<and>
   new_workers (trace (disposeWorker hsh cfg s)) = new_workers (trace s) \<and>
   map wtype (webworkers (disposeWorker hsh cfg s)) = map wtype (webworkers s) \<and>
   map workerReady (webworkers (disposeWorker hsh cfg s)) = map workerReady (webworkers s) \<and>
   map initResolved (webworkers (disposeWorker hsh cfg s)) = map initResolved (webworkers s) \<and>
   map mapMessageNonceToMessageResolve (webworkers (disposeWorker hsh cfg s)) =
     map mapMessageNonceToMessageResolve (webworkers s) \<and>
   workers (dispose_closure hsh c s) = workers s \<and>
   processes (dispose_closure hsh c s) = (processes s)(hsh (cc_configuration (calls s ! c)) := None) \<and>
   calls (dispose_closure hsh c s) = (calls s)[c := (calls s ! c)\<lparr>cts_cancelled := True\<rparr>] \<and>
   ports (dispose_closure hsh c s) =
     ports (close_port (workerPort (calls s ! c)) (close_port (windowPort (calls s ! c)) s))"
proof -
  have "workers (disposeWorker hsh cfg s) = workers s \<and>
   new_workers (trace (disposeWorker hsh cfg s)) = new_workers (trace s) \<and>
   map wtype (webworkers (disposeWorker hsh cfg s)) = map wtype (webworkers s) \<and>
   map workerReady (webworkers (disposeWorker hsh cfg s)) = map workerReady (webworkers s) \<and>
   map initResolved (webworkers (disposeWorker hsh cfg s)) = map initResolved (webworkers s) \<and>
   map mapMessageNonceToMessageResolve (webworkers (disposeWorker hsh cfg s)) =
     map mapMessageNonceToMessageResolve (webworkers s)"
    by (simp add: disposeWorker_def dispose_closure_workers split: option.splits)
  then show ?thesis
    using dispose_closure_workers(1)[of hsh c s] dispose_closure_procs(1)[of hsh c s]
      dispose_closure_calls[of hsh c s] dispose_closure_ports[of hsh c s]
    by blast
qed

text \<open>
  Claim C10. An acknowledgement whose nonce is missing or the empty string leaves the whole
  state unchanged: no table entry is touched, no promise resolved, nothing logged.
\<close>

theorem ack_without_nonce_has_no_effect:
  "r_id ev = WorkerAck \<Longrightarrow> r_nonce ev = None \<or> r_nonce ev = Some [] \<Longrightarrow>
     onmessage w ev s = s \<and> step hsh (WorkerMessage w ev) s = s"
  by (auto simp add: onmessage_def step_def truthy_def)

theorem ack_without_nonce_has_no_effect_witness:
  "onmessage 0 (ack_message None) state_spawn_posted = state_spawn_posted \<and>
   onmessage 0 (ack_message (Some [])) state_spawn_posted = state_spawn_posted"
  using ack_without_nonce_has_no_effect[of "ack_message None" 0 state_spawn_posted]
    ack_without_nonce_has_no_effect[of "ack_message (Some [])" 0 state_spawn_posted]
  by (simp add: ack_message_def)

end
